theory Spec2Isabelle
  imports Main
begin

section \<open>Python strings and the character tables they rely on\<close>

text \<open>
  A Python \<open>str\<close> is a sequence of Unicode code points, so a text is a list of
  natural numbers. String literals of the source are written with \<open>py\<close>, which
  maps each character of an ASCII literal to its code point (Python's \<open>ord\<close>).
\<close>

type_synonym pystr = "nat list"

definition py :: "string \<Rightarrow> pystr" where
  "py s = map of_char s"

text \<open>
  \<open>str.lower\<close>, \<open>str.strip\<close> and the classes \<open>\\s\<close>, \<open>\\d\<close>, \<open>\\w\<close> of \<open>re\<close> consult
  the Unicode character database of the interpreter. On ASCII (code points below
  128) the tables are fixed and written out below. Beyond ASCII they belong to the
  interpreter, not to the repository, and are a parameter of the model:
  \<^item> \<open>uc_space\<close>, \<open>uc_decimal\<close>, \<open>uc_alnum\<close>: whitespace, decimal digit, alphanumeric;
  \<^item> \<open>uc_lower before c after\<close>: what \<open>str.lower\<close> writes for the non-ASCII
    character \<open>c\<close> in its context (the context matters for capital sigma only);
  \<^item> \<open>uc_fold p c\<close>: under \<open>re.IGNORECASE\<close>, pattern character \<open>p\<close> matches the
    text character \<open>c\<close>, when at least one of the two is not ASCII.
\<close>

record ucd =
  uc_space :: "nat \<Rightarrow> bool"
  uc_decimal :: "nat \<Rightarrow> bool"
  uc_alnum :: "nat \<Rightarrow> bool"
  uc_lower :: "pystr \<Rightarrow> nat \<Rightarrow> pystr \<Rightarrow> pystr"
  uc_fold :: "nat \<Rightarrow> nat \<Rightarrow> bool"

definition is_space :: "ucd \<Rightarrow> nat \<Rightarrow> bool" where
  "is_space E c =
     (if c < 128 then (9 \<le> c \<and> c \<le> 13) \<or> (28 \<le> c \<and> c \<le> 32) else uc_space E c)"

definition is_decimal :: "ucd \<Rightarrow> nat \<Rightarrow> bool" where
  "is_decimal E c = (if c < 128 then 48 \<le> c \<and> c \<le> 57 else uc_decimal E c)"

definition is_alnum :: "ucd \<Rightarrow> nat \<Rightarrow> bool" where
  "is_alnum E c =
     (if c < 128 then (48 \<le> c \<and> c \<le> 57) \<or> (65 \<le> c \<and> c \<le> 90) \<or> (97 \<le> c \<and> c \<le> 122)
      else uc_alnum E c)"

definition ascii_lower :: "nat \<Rightarrow> nat" where
  "ascii_lower c = (if 65 \<le> c \<and> c \<le> 90 then c + 32 else c)"

text \<open>\<open>lower_from E before s\<close> is \<open>str.lower\<close> on \<open>s\<close>, where \<open>before\<close> is the text to the
  left of \<open>s\<close>.\<close>

fun lower_from :: "ucd \<Rightarrow> pystr \<Rightarrow> pystr \<Rightarrow> pystr" where
  "lower_from E before [] = []"
| "lower_from E before (c # cs) =
     (if c < 128 then [ascii_lower c] else uc_lower E before c cs)
       @ lower_from E (before @ [c]) cs"

definition lower :: "ucd \<Rightarrow> pystr \<Rightarrow> pystr" where
  "lower E s = lower_from E [] s"

text \<open>\<open>starts_with k s\<close>: \<open>s.startswith(k)\<close>; \<open>contains k s\<close>: the Python test \<open>k in s\<close>.\<close>

fun starts_with :: "pystr \<Rightarrow> pystr \<Rightarrow> bool" where
  "starts_with [] s = True"
| "starts_with (k # ks) [] = False"
| "starts_with (k # ks) (c # cs) = (k = c \<and> starts_with ks cs)"

fun contains :: "pystr \<Rightarrow> pystr \<Rightarrow> bool" where
  "contains k [] = (k = [])"
| "contains k (c # cs) = (starts_with k (c # cs) \<or> contains k cs)"

section \<open>Issuer detection\<close>

definition detect_issuer :: "ucd \<Rightarrow> pystr \<Rightarrow> pystr" where
  "detect_issuer E text =
     (let t = lower E text in
      if contains (py ''american express'') t \<or> contains (py ''amex'') t
        then py ''American Express''
      else if contains (py ''chase'') t \<or> contains (py ''chase cardmember'') t
        then py ''Chase''
      else if contains (py ''citibank'') t \<or> contains (py ''citi'') t
        then py ''Citi''
      else if contains (py ''bank of america'') t \<or> contains (py ''bofa'') t
        then py ''Bank of America''
      else if contains (py ''hsbc'') t
        then py ''HSBC''
      else py ''Unknown'')"

section \<open>Regular expressions\<close>

text \<open>
  The patterns of the source are written in the syntax of Python's \<open>re\<close> module.
  The abstract syntax below covers the constructs those patterns use: literal
  text, one character out of a class, a counted repetition of one character
  (\<open>*\<close>, \<open>*?\<close>, \<open>+\<close>, \<open>?\<close>, \<open>{4}\<close>), concatenation, alternation, an optional
  sub-pattern \<open>(?:...)?\<close> and numbered capturing groups.
\<close>

datatype category = Space | Digit | Word

datatype citem = Chr nat | Range nat nat | Cat category

datatype atom = Dot | Char nat | Category category | Class "citem list"

datatype regex =
    Lit pystr
  | One atom
  | Rep atom nat "nat option" bool
  | Seq regex regex
  | Alt regex regex
  | Opt regex
  | Group nat regex

text \<open>\<open>Rep a lo hi greedy\<close> repeats \<open>a\<close> at least \<open>lo\<close> and at most \<open>hi\<close> times
  (\<open>None\<close>: unbounded); \<open>greedy = False\<close> is the lazy form written with a trailing \<open>?\<close>.\<close>

record flags =
  ignorecase :: bool
  dotall :: bool

text \<open>One pattern character against one text character.\<close>

definition chr_eq :: "ucd \<Rightarrow> flags \<Rightarrow> nat \<Rightarrow> nat \<Rightarrow> bool" where
  "chr_eq E f p c =
     (if ignorecase f
      then (if p < 128 \<and> c < 128 then ascii_lower p = ascii_lower c
            else p = c \<or> uc_fold E p c)
      else p = c)"

fun cat_ok :: "ucd \<Rightarrow> category \<Rightarrow> nat \<Rightarrow> bool" where
  "cat_ok E Space c = is_space E c"
| "cat_ok E Digit c = is_decimal E c"
| "cat_ok E Word c = (is_alnum E c \<or> c = 95)"

fun item_ok :: "ucd \<Rightarrow> flags \<Rightarrow> citem \<Rightarrow> nat \<Rightarrow> bool" where
  "item_ok E f (Chr p) c = chr_eq E f p c"
| "item_ok E f (Range lo hi) c =
     (if ignorecase f then list_ex (\<lambda>p. chr_eq E f p c) [lo ..< Suc hi]
      else lo \<le> c \<and> c \<le> hi)"
| "item_ok E f (Cat k) c = cat_ok E k c"

fun atom_ok :: "ucd \<Rightarrow> flags \<Rightarrow> atom \<Rightarrow> nat \<Rightarrow> bool" where
  "atom_ok E f Dot c = (dotall f \<or> c \<noteq> 10)"
| "atom_ok E f (Char p) c = chr_eq E f p c"
| "atom_ok E f (Category k) c = cat_ok E k c"
| "atom_ok E f (Class items) c = list_ex (\<lambda>i. item_ok E f i c) items"

text \<open>
  The matcher is the backtracking matcher of \<open>re\<close>: alternatives are tried from left
  to right, a greedy repetition tries the longest run first, a lazy one the
  shortest, and the first way of matching the whole pattern is the match. The
  continuation \<open>k\<close> stands for the rest of the pattern; a text position is the
  suffix of the text that starts there.
\<close>

type_synonym caps = "nat \<Rightarrow> pystr option"

fun match_lit :: "ucd \<Rightarrow> flags \<Rightarrow> pystr \<Rightarrow> pystr \<Rightarrow> pystr option" where
  "match_lit E f [] s = Some s"
| "match_lit E f (p # ps) [] = None"
| "match_lit E f (p # ps) (c # cs) = (if chr_eq E f p c then match_lit E f ps cs else None)"

text \<open>\<open>rep ok greedy lo hi s k\<close> matches between \<open>lo\<close> and \<open>hi\<close> characters that satisfy
  \<open>ok\<close> and goes on with \<open>k\<close>. Bounds with \<open>lo\<close> above \<open>hi\<close>, which \<open>re\<close> refuses to
  compile, match nothing.\<close>

definition dec_bound :: "nat option \<Rightarrow> nat option" where
  "dec_bound hi = map_option (\<lambda>n. n - 1) hi"

fun rep :: "(nat \<Rightarrow> bool) \<Rightarrow> bool \<Rightarrow> nat \<Rightarrow> nat option \<Rightarrow> pystr \<Rightarrow> (pystr \<Rightarrow> 'r option) \<Rightarrow> 'r option" where
  "rep ok greedy lo hi [] k = (if 0 < lo then None else k [])"
| "rep ok greedy lo hi (c # cs) k =
     (if 0 < lo then
        (if ok c \<and> hi \<noteq> Some 0 then rep ok greedy (lo - 1) (dec_bound hi) cs k else None)
      else if hi = Some 0 \<or> \<not> ok c then k (c # cs)
      else if greedy then
        (case rep ok greedy 0 (dec_bound hi) cs k of Some r \<Rightarrow> Some r | None \<Rightarrow> k (c # cs))
      else
        (case k (c # cs) of Some r \<Rightarrow> Some r | None \<Rightarrow> rep ok greedy 0 (dec_bound hi) cs k))"

fun m :: "ucd \<Rightarrow> flags \<Rightarrow> regex \<Rightarrow> pystr \<Rightarrow> caps \<Rightarrow> (pystr \<Rightarrow> caps \<Rightarrow> 'r option) \<Rightarrow> 'r option" where
  "m E f (Lit ps) s c k = (case match_lit E f ps s of None \<Rightarrow> None | Some s' \<Rightarrow> k s' c)"
| "m E f (One a) s c k =
     (case s of [] \<Rightarrow> None | x # xs \<Rightarrow> if atom_ok E f a x then k xs c else None)"
| "m E f (Rep a lo hi greedy) s c k = rep (atom_ok E f a) greedy lo hi s (\<lambda>s'. k s' c)"
| "m E f (Seq r1 r2) s c k = m E f r1 s c (\<lambda>s' c'. m E f r2 s' c' k)"
| "m E f (Alt r1 r2) s c k =
     (case m E f r1 s c k of Some r \<Rightarrow> Some r | None \<Rightarrow> m E f r2 s c k)"
| "m E f (Opt r) s c k = (case m E f r s c k of Some x \<Rightarrow> Some x | None \<Rightarrow> k s c)"
| "m E f (Group n r) s c k =
     m E f r s c (\<lambda>s' c'. k s' (c'(n \<mapsto> take (length s - length s') s)))"

text \<open>
  A match object: where the match starts, the matched text (\<open>group(0)\<close>) and
  the texts of the capturing groups (\<open>group(n)\<close>, \<open>None\<close> for a group that took no
  part in the match).
\<close>

record match_obj =
  mre :: regex
  mstart :: nat
  mtext :: pystr
  mgroup :: caps

definition match_at :: "ucd \<Rightarrow> flags \<Rightarrow> regex \<Rightarrow> nat \<Rightarrow> pystr \<Rightarrow> match_obj option" where
  "match_at E f r i s =
     m E f r s (\<lambda>n. None)
       (\<lambda>s' c. Some \<lparr>mre = r, mstart = i, mtext = take (length s - length s') s, mgroup = c\<rparr>)"

text \<open>\<open>re.search\<close>: the match at the leftmost position that has one.\<close>

fun search_from :: "ucd \<Rightarrow> flags \<Rightarrow> regex \<Rightarrow> nat \<Rightarrow> pystr \<Rightarrow> match_obj option" where
  "search_from E f r i [] = match_at E f r i []"
| "search_from E f r i (c # cs) =
     (case match_at E f r i (c # cs) of
        Some mo \<Rightarrow> Some mo
      | None \<Rightarrow> search_from E f r (Suc i) cs)"

definition search :: "ucd \<Rightarrow> flags \<Rightarrow> regex \<Rightarrow> pystr \<Rightarrow> match_obj option" where
  "search E f r s = search_from E f r 0 s"

text \<open>\<open>ngroups r\<close> is \<open>len(m.groups())\<close> for a match of \<open>r\<close>: the number of capturing
  groups of the pattern, whether they took part in the match or not.\<close>

fun ngroups :: "regex \<Rightarrow> nat" where
  "ngroups (Seq r1 r2) = ngroups r1 + ngroups r2"
| "ngroups (Alt r1 r2) = ngroups r1 + ngroups r2"
| "ngroups (Opt r) = ngroups r"
| "ngroups (Group n r) = Suc (ngroups r)"
| "ngroups r = 0"

text \<open>Shorthands for writing patterns down.\<close>

fun seqs :: "regex list \<Rightarrow> regex" where
  "seqs [] = Lit []"
| "seqs [r] = r"
| "seqs (r # rs) = Seq r (seqs rs)"

fun alts :: "regex list \<Rightarrow> regex" where
  "alts [] = Lit []"
| "alts [r] = r"
| "alts (r # rs) = Alt r (alts rs)"

definition words :: "string list \<Rightarrow> regex" where
  "words ws = alts (map (\<lambda>w. Lit (py w)) ws)"

definition star :: "atom \<Rightarrow> regex" where "star a = Rep a 0 None True"
definition star_lazy :: "atom \<Rightarrow> regex" where "star_lazy a = Rep a 0 None False"
definition plus :: "atom \<Rightarrow> regex" where "plus a = Rep a 1 None True"
definition opt1 :: "atom \<Rightarrow> regex" where "opt1 a = Rep a 0 (Some 1) True"
definition times :: "nat \<Rightarrow> atom \<Rightarrow> regex" where "times n a = Rep a n (Some n) True"

definition IC :: flags where "IC = \<lparr>ignorecase = True, dotall = False\<rparr>"
definition ICS :: flags where "ICS = \<lparr>ignorecase = True, dotall = True\<rparr>"

section \<open>Utility helpers\<close>

text \<open>\<open>str.strip()\<close>: leading and trailing whitespace removed.\<close>

definition strip :: "ucd \<Rightarrow> pystr \<Rightarrow> pystr" where
  "strip E s = rev (dropWhile (is_space E) (rev (dropWhile (is_space E) s)))"

text \<open>\<open>re.sub(r'\s+', ' ', s)\<close>: each maximal run of whitespace is replaced by one
  space (code point 32).\<close>

function sub_spaces :: "ucd \<Rightarrow> pystr \<Rightarrow> pystr" where
  "sub_spaces E [] = []"
| "sub_spaces E (c # cs) =
     (if is_space E c then 32 # sub_spaces E (dropWhile (is_space E) cs)
      else c # sub_spaces E cs)"
  by pat_completeness auto
termination
  by (relation "measure (\<lambda>(E, s). length s)") (auto simp: length_dropWhile_le less_Suc_eq_le)

definition normalize_spaces :: "ucd \<Rightarrow> pystr \<Rightarrow> pystr" where
  "normalize_spaces E s = strip E (sub_spaces E s)"

text \<open>
  Exceptions of the source are values. \<open>dateutil\<close>'s parser is a library outside
  the repository: \<open>dateparser.parse(text, dayfirst=False, fuzzy=True)\<close> is the
  parameter \<open>P\<close>, which returns a \<open>datetime\<close> or raises.
\<close>

datatype pyerr = AttributeError | ParserError | OverflowError | PDFError

record pydate =
  year :: nat
  month :: nat
  day :: nat

record pydatetime =
  dt_year :: nat
  dt_month :: nat
  dt_day :: nat
  dt_hour :: nat
  dt_minute :: nat
  dt_second :: nat

type_synonym dateparser = "pystr \<Rightarrow> pyerr + pydatetime"

definition date_of :: "pydatetime \<Rightarrow> pydate" where
  "date_of dt = \<lparr>year = dt_year dt, month = dt_month dt, day = dt_day dt\<rparr>"

text \<open>Decimal digits of a number, and \<open>'%0wd'\<close> formatting.\<close>

function dec :: "nat \<Rightarrow> pystr" where
  "dec n = (if n < 10 then [48 + n] else dec (n div 10) @ [48 + n mod 10])"
  by pat_completeness auto
termination
  by (relation "measure id") auto

declare dec.simps [simp del]

definition zfill :: "nat \<Rightarrow> pystr \<Rightarrow> pystr" where
  "zfill w s = replicate (w - length s) 48 @ s"

text \<open>\<open>date.isoformat()\<close> is \<open>'%04d-%02d-%02d' % (year, month, day)\<close>.\<close>

definition isoformat :: "pydate \<Rightarrow> pystr" where
  "isoformat d = zfill 4 (dec (year d)) @ [45] @ zfill 2 (dec (month d)) @ [45] @ zfill 2 (dec (day d))"

definition try_parse_date :: "dateparser \<Rightarrow> pystr \<Rightarrow> pystr option" where
  "try_parse_date P text =
     (case P text of
        Inr dt \<Rightarrow> Some (isoformat (date_of dt))
      | Inl e \<Rightarrow> None)"

text \<open>
  \<open>find_first_regex\<close> returns the pair \<open>(pattern, text)\<close> of the first pattern that
  matches, or \<open>None\<close>. \<open>m.group(1)\<close> is \<open>None\<close> for a group that took no part in the
  match, and \<open>None.strip()\<close> raises \<open>AttributeError\<close>.
\<close>

fun find_first_regex :: "ucd \<Rightarrow> pystr \<Rightarrow> regex list \<Rightarrow> pyerr + (regex \<times> pystr) option" where
  "find_first_regex E text [] = Inr None"
| "find_first_regex E text (p # ps) =
     (case search E ICS p text of
        Some mo \<Rightarrow>
          (if 0 < ngroups (mre mo) then
             (case mgroup mo 1 of
                None \<Rightarrow> Inl AttributeError
              | Some g \<Rightarrow> Inr (Some (p, strip E g)))
           else Inr (Some (p, strip E (mtext mo))))
      | None \<Rightarrow> find_first_regex E text ps)"

section \<open>Parsers per issuer\<close>

text \<open>The output dictionary of a parser: six keys, \<open>None\<close> where no value was found.\<close>

record fields =
  issuer :: pystr
  last4 :: "pystr option"
  card_variant :: "pystr option"
  statement_period :: "pystr option"
  due_date :: "pystr option"
  amount_due :: "pystr option"

text \<open>Character classes shared by the patterns.\<close>

definition colon_space :: atom where
  \<comment> \<open>\<open>[:\s]\<close>\<close>
  "colon_space = Class [Chr 58, Cat Space]"

definition period_chars :: atom where
  \<comment> \<open>\<open>[\w,\s\-/\d]\<close>\<close>
  "period_chars = Class [Cat Word, Chr 44, Cat Space, Chr 45, Chr 47, Cat Digit]"

definition date_chars :: atom where
  \<comment> \<open>\<open>[A-Za-z0-9 ,\-]\<close>\<close>
  "date_chars = Class [Range 65 90, Range 97 122, Range 48 57, Chr 32, Chr 44, Chr 45]"

definition amount_chars :: atom where
  \<comment> \<open>\<open>[,\d\.]\<close>\<close>
  "amount_chars = Class [Chr 44, Cat Digit, Chr 46]"

definition letters :: atom where
  \<comment> \<open>\<open>[A-Za-z]\<close>\<close>
  "letters = Class [Range 65 90, Range 97 122]"

definition letters_digits_space :: atom where
  \<comment> \<open>\<open>[A-Za-z0-9 ]\<close>\<close>
  "letters_digits_space = Class [Range 65 90, Range 97 122, Range 48 57, Chr 32]"

definition four_digits :: regex where
  \<comment> \<open>\<open>(\d{4})\<close>\<close>
  "four_digits = Group 1 (times 4 (Category Digit))"

text \<open>Pattern shapes that recur: \<open>LABEL[:\s]*([\w,\s\-/\d]+)\<close>,
  \<open>LABEL[:\s]*([A-Za-z0-9 ,\-]+)\<close>, \<open>LABEL[:\s]*\$?([,\d\.]+)\<close>,
  \<open>(W1|W2|...)\s+Card\<close> and \<open>ISSUER\s+([A-Za-z]+)\s+Card\<close>.\<close>

definition period_pat :: "string \<Rightarrow> regex" where
  "period_pat label = seqs [Lit (py label), star colon_space, Group 1 (plus period_chars)]"

definition date_pat :: "string \<Rightarrow> regex" where
  "date_pat label = seqs [Lit (py label), star colon_space, Group 1 (plus date_chars)]"

definition amount_pat :: "string \<Rightarrow> regex" where
  "amount_pat label =
     seqs [Lit (py label), star colon_space, opt1 (Char 36), Group 1 (plus amount_chars)]"

definition variant_pat :: "string list \<Rightarrow> regex" where
  "variant_pat ws = seqs [Group 1 (words ws), plus (Category Space), Lit (py ''Card'')]"

definition issuer_card_pat :: "string \<Rightarrow> regex" where
  "issuer_card_pat name =
     seqs [Lit (py name), plus (Category Space), Group 1 (plus letters),
           plus (Category Space), Lit (py ''Card'')]"

text \<open>The bodies below share their shape: the value of a match for \<open>last4\<close>, and
  the record built from the five lookups.\<close>

definition group1_or_none :: "match_obj option \<Rightarrow> pystr option" where
  \<comment> \<open>\<open>m.group(1) if m else None\<close>\<close>
  "group1_or_none mm = (case mm of None \<Rightarrow> None | Some mo \<Rightarrow> mgroup mo 1)"

definition or_else :: "'a option \<Rightarrow> 'a option \<Rightarrow> 'a option" where
  \<comment> \<open>\<open>a or b\<close> on match objects: a match object is always true\<close>
  "or_else a b = (case a of Some x \<Rightarrow> Some x | None \<Rightarrow> b)"

definition second :: "(regex \<times> pystr) option \<Rightarrow> pystr option" where
  \<comment> \<open>\<open>v[1] if v else None\<close>\<close>
  "second v = map_option snd v"

definition fill :: "ucd \<Rightarrow> dateparser \<Rightarrow> pystr \<Rightarrow> pystr option \<Rightarrow> pystr \<Rightarrow>
    regex list \<Rightarrow> regex list \<Rightarrow> regex list \<Rightarrow> regex list \<Rightarrow> pyerr + fields" where
  "fill E P name l4 text vs sps dds ads =
     (case find_first_regex E text vs of Inl e \<Rightarrow> Inl e | Inr v \<Rightarrow>
      case find_first_regex E text sps of Inl e \<Rightarrow> Inl e | Inr sp \<Rightarrow>
      case find_first_regex E text dds of Inl e \<Rightarrow> Inl e | Inr dd \<Rightarrow>
      case find_first_regex E text ads of Inl e \<Rightarrow> Inl e | Inr ad \<Rightarrow>
      Inr \<lparr>issuer = name,
           last4 = l4,
           card_variant = second v,
           statement_period = map_option (normalize_spaces E) (second sp),
           due_date = (case second dd of None \<Rightarrow> None | Some d \<Rightarrow> try_parse_date P d),
           amount_due = second ad\<rparr>)"

subsection \<open>American Express\<close>

definition amex_last4_first :: regex where
  \<comment> \<open>\<open>Card Member since.*|Card ending in[:\s]*?(\d{4})\<close>\<close>
  "amex_last4_first =
     Alt (Seq (Lit (py ''Card Member since'')) (star Dot))
         (seqs [Lit (py ''Card ending in''), star_lazy colon_space, four_digits])"

definition ending_in_lazy :: "string \<Rightarrow> regex" where
  \<comment> \<open>\<open>PREFIXending in[:\s]*?(\d{4})\<close>\<close>
  "ending_in_lazy pre = seqs [Lit (py (pre @ ''ending in'')), star_lazy colon_space, four_digits]"

definition parse_amex :: "ucd \<Rightarrow> dateparser \<Rightarrow> pystr \<Rightarrow> pyerr + fields" where
  "parse_amex E P text =
     (let m0 = search E IC amex_last4_first text;
          m1 = (if m0 = None then search E IC (ending_in_lazy []) text else m0);
          l4 = (case m1 of
                  Some mo \<Rightarrow> if 0 < ngroups (mre mo) then mgroup mo 1 else None
                | None \<Rightarrow> None)
      in fill E P (py ''American Express'') l4 text
           [variant_pat [''Platinum'', ''Gold'', ''Green'', ''Centurion'', ''Blue'',
                         ''Everyday'', ''Cashback'', ''Corporate''],
            issuer_card_pat ''American Express'']
           [period_pat ''Statement Period'',
            seqs [Lit (py ''Statement Summary''), star (Category Space), Lit (py ''Period''),
                  star colon_space, Group 1 (plus period_chars)],
            period_pat ''For the period'']
           [date_pat ''Due Date'', date_pat ''Payment Due Date'']
           [amount_pat ''Amount Due'', amount_pat ''Total Amount Due'',
            amount_pat ''New Balance''])"

subsection \<open>Chase\<close>

definition chase_variant_first :: regex where
  \<comment> \<open>\<open>(Sapphire|Freedom|Ink|Slate|Preferred|Reserve|Bold)\s+(?:Card|Account|Cardmember)?\<close>\<close>
  "chase_variant_first =
     seqs [Group 1 (words [''Sapphire'', ''Freedom'', ''Ink'', ''Slate'', ''Preferred'',
                           ''Reserve'', ''Bold'']),
           plus (Category Space),
           Opt (words [''Card'', ''Account'', ''Cardmember''])]"

definition parse_chase :: "ucd \<Rightarrow> dateparser \<Rightarrow> pystr \<Rightarrow> pyerr + fields" where
  "parse_chase E P text =
     (let mm = or_else (search E IC (ending_in_lazy ''Account '') text)
                       (search E IC (ending_in_lazy ''Card '') text)
      in fill E P (py ''Chase'') (group1_or_none mm) text
           [chase_variant_first, issuer_card_pat ''Chase'']
           [period_pat ''Statement Period'', period_pat ''For the period'']
           [date_pat ''Payment Due Date'', date_pat ''Due Date'']
           [amount_pat ''Total Amount Due'', amount_pat ''New Balance'',
            amount_pat ''Amount Due''])"

subsection \<open>Citi\<close>

definition ending_in_space :: regex where
  \<comment> \<open>\<open>ending in (\d{4})\<close>\<close>
  "ending_in_space = Seq (Lit (py ''ending in '')) four_digits"

definition parse_citi :: "ucd \<Rightarrow> dateparser \<Rightarrow> pystr \<Rightarrow> pyerr + fields" where
  "parse_citi E P text =
     (let mm = or_else (search E IC (ending_in_lazy ''Card '') text)
                       (search E IC ending_in_space text)
      in fill E P (py ''Citi'') (group1_or_none mm) text
           [variant_pat [''Premier'', ''Prestige'', ''Gold'', ''Platinum'', ''Custom'',
                         ''Simplicity'', ''Double Cash'', ''Double''],
            issuer_card_pat ''Citi'']
           [period_pat ''Statement Period'', period_pat ''Statement Date'']
           [date_pat ''Payment Due Date'', date_pat ''Due Date'']
           [amount_pat ''Total Amount Due'', amount_pat ''Amount due now'',
            amount_pat ''Current Due''])"

subsection \<open>Bank of America\<close>

definition masked_number :: "string \<Rightarrow> regex" where
  \<comment> \<open>\<open>LABEL[:\s]*\*+(\d{4})\<close>\<close>
  "masked_number label = seqs [Lit (py label), star colon_space, plus (Char 42), four_digits]"

definition parse_bofa :: "ucd \<Rightarrow> dateparser \<Rightarrow> pystr \<Rightarrow> pyerr + fields" where
  "parse_bofa E P text =
     (let mm = or_else (search E IC (masked_number ''Account Number'') text)
                       (search E IC ending_in_space text)
      in fill E P (py ''Bank of America'') (group1_or_none mm) text
           [variant_pat [''Preferred'', ''Platinum'', ''Cash Rewards'', ''Travel Rewards'',
                         ''Customized Cash Rewards''],
            issuer_card_pat ''Bank of America'']
           [period_pat ''Statement Period'', period_pat ''Activity Period'']
           [date_pat ''Payment Due Date'', date_pat ''Due Date'']
           [amount_pat ''Total Due'', amount_pat ''Amount Due'',
            amount_pat ''Current Balance''])"

subsection \<open>HSBC\<close>

definition ending_in_greedy :: regex where
  \<comment> \<open>\<open>ending in[:\s]*(\d{4})\<close>\<close>
  "ending_in_greedy = seqs [Lit (py ''ending in''), star colon_space, four_digits]"

definition parse_hsbc :: "ucd \<Rightarrow> dateparser \<Rightarrow> pystr \<Rightarrow> pyerr + fields" where
  "parse_hsbc E P text =
     (let mm = or_else (search E IC (masked_number ''Card number'') text)
                       (search E IC ending_in_greedy text)
      in fill E P (py ''HSBC'') (group1_or_none mm) text
           [variant_pat [''Premier'', ''Advance'', ''Platinum'', ''Gold'', ''Red''],
            issuer_card_pat ''HSBC'']
           [period_pat ''Statement Period'', period_pat ''Account summary for the period'']
           [date_pat ''Due Date'', date_pat ''Payment Due Date'']
           [amount_pat ''Total Amount Due'', amount_pat ''Amount Due'',
            amount_pat ''Total due''])"

subsection \<open>Generic fallback parser\<close>

definition generic_variant_first :: regex where
  \<comment> \<open>\<open>(Platinum|Gold|Silver|Classic|Cashback|Rewards|Signature|Infinite)\s+(?:Card|Account)\<close>\<close>
  "generic_variant_first =
     seqs [Group 1 (words [''Platinum'', ''Gold'', ''Silver'', ''Classic'', ''Cashback'',
                           ''Rewards'', ''Signature'', ''Infinite'']),
           plus (Category Space),
           words [''Card'', ''Account'']]"

definition generic_period_first :: regex where
  \<comment> \<open>\<open>(Statement Period|Statement Date|For the period)[:\s]*([\w,\s\-/\d]+)\<close>\<close>
  "generic_period_first =
     seqs [Group 1 (words [''Statement Period'', ''Statement Date'', ''For the period'']),
           star colon_space, Group 2 (plus period_chars)]"

definition generic_date :: regex where
  \<comment> \<open>\<open>(Payment Due Date|Due Date)[:\s]*([A-Za-z0-9 ,\-]+)\<close>\<close>
  "generic_date =
     seqs [Group 1 (words [''Payment Due Date'', ''Due Date'']),
           star colon_space, Group 2 (plus date_chars)]"

definition generic_amount :: regex where
  \<comment> \<open>\<open>(Total Amount Due|Amount Due|New Balance|Current Balance)[:\s]*\$?([,\d\.]+)\<close>\<close>
  "generic_amount =
     seqs [Group 1 (words [''Total Amount Due'', ''Amount Due'', ''New Balance'',
                           ''Current Balance'']),
           star colon_space, opt1 (Char 36), Group 2 (plus amount_chars)]"

definition parse_generic :: "ucd \<Rightarrow> dateparser \<Rightarrow> pystr \<Rightarrow> pyerr + fields" where
  "parse_generic E P text =
     (case find_first_regex E text
             [ending_in_lazy [], masked_number ''Account Number'',
              seqs [Lit (py ''Card''), plus (Category Space), Lit (py ''ending''),
                    star_lazy colon_space, four_digits]] of
        Inl e \<Rightarrow> Inl e
      | Inr l4 \<Rightarrow>
          fill E P (py ''Unknown'') (second l4) text
            [generic_variant_first,
             seqs [Lit (py ''Card Type''), star colon_space, Group 1 (plus letters_digits_space)]]
            [generic_period_first, period_pat ''For the period'']
            [generic_date]
            [generic_amount])"

section \<open>Master extraction pipeline\<close>

text \<open>
  \<open>pdfplumber\<close> is a library outside the repository. A reader \<open>R\<close> stands for
  \<open>pdfplumber.open\<close>: it raises, or gives the pages, and each page's
  \<open>extract_text()\<close> raises or returns a text or \<open>None\<close>.
\<close>

datatype page = Raises | Returns "pystr option"

type_synonym pdf_reader = "nat list \<Rightarrow> pyerr + page list"

fun page_text :: "page \<Rightarrow> pystr" where
  \<comment> \<open>\<open>try: text = page.extract_text() or "" except Exception: text = ""\<close>\<close>
  "page_text Raises = []"
| "page_text (Returns None) = []"
| "page_text (Returns (Some t)) = t"

fun join :: "pystr \<Rightarrow> pystr list \<Rightarrow> pystr" where
  "join sep [] = []"
| "join sep [t] = t"
| "join sep (t # ts) = t @ sep @ join sep ts"

definition extract_text_from_pdf_bytes :: "pdf_reader \<Rightarrow> nat list \<Rightarrow> pyerr + pystr" where
  "extract_text_from_pdf_bytes R pdf_bytes =
     (case R pdf_bytes of
        Inl e \<Rightarrow> Inl e
      | Inr pages \<Rightarrow> Inr (join [10, 10] (filter (\<lambda>t. t \<noteq> []) (map page_text pages))))"

record statement =
  st_issuer :: pystr
  st_last4 :: "pystr option"
  st_card_variant :: "pystr option"
  st_statement_period :: "pystr option"
  st_due_date :: "pystr option"
  st_amount_due :: "pystr option"
  raw_sample_snippet :: pystr

text \<open>The part of \<open>parse_statement\<close> after the text has been extracted.\<close>

definition parse_text :: "ucd \<Rightarrow> dateparser \<Rightarrow> pystr \<Rightarrow> pyerr + statement" where
  "parse_text E P text =
     (let text_norm = normalize_spaces E text;
          name = detect_issuer E text_norm;
          result =
            (if name = py ''American Express'' then parse_amex E P text_norm
             else if name = py ''Chase'' then parse_chase E P text_norm
             else if name = py ''Citi'' then parse_citi E P text_norm
             else if name = py ''Bank of America'' then parse_bofa E P text_norm
             else if name = py ''HSBC'' then parse_hsbc E P text_norm
             else parse_generic E P text_norm)
      in case result of
           Inl e \<Rightarrow> Inl e
         | Inr r \<Rightarrow>
             Inr \<lparr>st_issuer = issuer r, st_last4 = last4 r, st_card_variant = card_variant r,
                  st_statement_period = statement_period r, st_due_date = due_date r,
                  st_amount_due = amount_due r,
                  raw_sample_snippet = take 1200 text_norm\<rparr>)"

definition parse_statement :: "pdf_reader \<Rightarrow> ucd \<Rightarrow> dateparser \<Rightarrow> nat list \<Rightarrow> pyerr + statement" where
  "parse_statement R E P pdf_bytes =
     (case extract_text_from_pdf_bytes R pdf_bytes of
        Inl e \<Rightarrow> Inl e
      | Inr text \<Rightarrow> parse_text E P text)"

section \<open>Definitions used to state the properties\<close>





text \<open>
  A sample of the character database beyond ASCII, for concrete inputs: U+00A0
  (no-break space) is whitespace, U+0660 to U+0669 (the Arabic-Indic digits) are
  decimal digits and alphanumeric, and these characters have no other case.
\<close>

definition ucd_sample :: ucd where
  "ucd_sample =
     \<lparr>uc_space = (\<lambda>c. c = 160),
      uc_decimal = (\<lambda>c. 1632 \<le> c \<and> c \<le> 1641),
      uc_alnum = (\<lambda>c. 1632 \<le> c \<and> c \<le> 1641),
      uc_lower = (\<lambda>before c after. [c]),
      uc_fold = (\<lambda>p c. False)\<rparr>"

text \<open>Date parsers for concrete inputs: one that rejects every text, and one that reads
  two texts as 5 March 2024 and rejects every other text.\<close>

definition never_parses :: dateparser where
  "never_parses text = Inl ParserError"

definition sample_parser :: dateparser where
  "sample_parser text =
     (if text = py ''March 5, 2024'' \<or> text = py ''March 5, 2024 Total Amount Due''
      then Inr \<lparr>dt_year = 2024, dt_month = 3, dt_day = 5, dt_hour = 0, dt_minute = 0, dt_second = 0\<rparr>
      else Inl ParserError)"

text \<open>The invariant of Python's \<open>date\<close> objects that the formatting relies on, and the
  text \<open>YYYY-MM-DD\<close> of a date, digit by digit.\<close>

definition py_date_ok :: "pydate \<Rightarrow> bool" where
  "py_date_ok d = (1 \<le> year d \<and> year d \<le> 9999 \<and> 1 \<le> month d \<and> month d \<le> 12
                   \<and> 1 \<le> day d \<and> day d \<le> 31)"

definition yyyy_mm_dd :: "nat \<Rightarrow> nat \<Rightarrow> nat \<Rightarrow> pystr" where
  "yyyy_mm_dd y mo d =
     [48 + y div 1000, 48 + y div 100 mod 10, 48 + y div 10 mod 10, 48 + y mod 10, 45,
      48 + mo div 10, 48 + mo mod 10, 45,
      48 + d div 10, 48 + d mod 10]"

text \<open>
  \<open>split_ws\<close> is Python's \<open>str.split()\<close>: the maximal runs of characters that are not
  whitespace. \<open>no_double_space\<close> says that no two adjacent characters are both
  whitespace.
\<close>

function split_ws :: "ucd \<Rightarrow> pystr \<Rightarrow> pystr list" where
  "split_ws E s =
     (case dropWhile (is_space E) s of
        [] \<Rightarrow> []
      | c # cs \<Rightarrow>
          (c # takeWhile (\<lambda>x. \<not> is_space E x) cs)
            # split_ws E (dropWhile (\<lambda>x. \<not> is_space E x) cs))"
  by pat_completeness auto
termination
proof (relation "measure (\<lambda>(E, s). length s)")
  show "wf (measure (\<lambda>(E, s). length s))" by simp
next
  fix E :: ucd and s :: pystr and c cs
  assume "dropWhile (is_space E) s = c # cs"
  then have "length (c # cs) \<le> length s"
    using length_dropWhile_le[of "is_space E" s] by simp
  moreover have "length (dropWhile (\<lambda>x. \<not> is_space E x) cs) \<le> length cs"
    by (rule length_dropWhile_le)
  ultimately show "((E, dropWhile (\<lambda>x. \<not> is_space E x) cs), (E, s)) \<in> measure (\<lambda>(E, s). length s)"
    by simp
qed

declare split_ws.simps [simp del]

fun no_double_space :: "ucd \<Rightarrow> pystr \<Rightarrow> bool" where
  "no_double_space E (a # b # t) = (\<not> (is_space E a \<and> is_space E b) \<and> no_double_space E (b # t))"
| "no_double_space E t = True"

text \<open>The shape of \<open>sub_spaces\<close>: the words joined by single spaces, with one space in
  front when the text starts with whitespace and one behind when it ends with it.\<close>

definition lead :: "ucd \<Rightarrow> pystr \<Rightarrow> pystr" where
  "lead E s = (if s \<noteq> [] \<and> is_space E (hd s) then [32] else [])"

definition trail :: "ucd \<Rightarrow> pystr \<Rightarrow> pystr" where
  "trail E s = (if split_ws E s \<noteq> [] \<and> is_space E (last s) then [32] else [])"

text \<open>A list of words: none is empty and none contains whitespace.\<close>

definition spaceless :: "ucd \<Rightarrow> pystr list \<Rightarrow> bool" where
  "spaceless E ws = list_all (\<lambda>w. w \<noteq> [] \<and> list_all (\<lambda>c. \<not> is_space E c) w) ws"

section \<open>The meaning of a pattern\<close>
text \<open>\<open>within lo hi n\<close>: \<open>n\<close> repetitions are allowed by the bounds \<open>lo\<close> and \<open>hi\<close>.\<close>

definition within :: "nat \<Rightarrow> nat option \<Rightarrow> nat \<Rightarrow> bool" where
  "within lo hi n = (lo \<le> n \<and> (case hi of None \<Rightarrow> True | Some h \<Rightarrow> n \<le> h))"

text \<open>
  \<open>run E f r w c c'\<close>: the pattern \<open>r\<close> matches exactly the text \<open>w\<close>, and a match that
  starts with the captures \<open>c\<close> ends with the captures \<open>c'\<close>. The matcher \<open>m\<close> only
  ever finds matches in this sense.
\<close>

fun run :: "ucd \<Rightarrow> flags \<Rightarrow> regex \<Rightarrow> pystr \<Rightarrow> caps \<Rightarrow> caps \<Rightarrow> bool" where
  "run E f (Lit ps) w c c' = (c' = c \<and> list_all2 (chr_eq E f) ps w)"
| "run E f (One a) w c c' = (c' = c \<and> (\<exists>x. w = [x] \<and> atom_ok E f a x))"
| "run E f (Rep a lo hi greedy) w c c' =
     (c' = c \<and> within lo hi (length w) \<and> list_all (atom_ok E f a) w)"
| "run E f (Seq r1 r2) w c c' =
     (\<exists>w1 w2 c1. w = w1 @ w2 \<and> run E f r1 w1 c c1 \<and> run E f r2 w2 c1 c')"
| "run E f (Alt r1 r2) w c c' = (run E f r1 w c c' \<or> run E f r2 w c c')"
| "run E f (Opt r) w c c' = (run E f r w c c' \<or> (w = [] \<and> c' = c))"
| "run E f (Group n r) w c c' = (\<exists>c1. run E f r w c c1 \<and> c' = c1(n \<mapsto> w))"

text \<open>\<open>always_sets n r\<close>: every match of \<open>r\<close> goes through a group numbered \<open>n\<close>.
  \<open>bodies n r\<close>: the sub-patterns that the groups numbered \<open>n\<close> enclose.\<close>

fun always_sets :: "nat \<Rightarrow> regex \<Rightarrow> bool" where
  "always_sets n (Group k r) = (k = n \<or> always_sets n r)"
| "always_sets n (Seq r1 r2) = (always_sets n r1 \<or> always_sets n r2)"
| "always_sets n (Alt r1 r2) = (always_sets n r1 \<and> always_sets n r2)"
| "always_sets n r = False"

fun bodies :: "nat \<Rightarrow> regex \<Rightarrow> regex list" where
  "bodies n (Group k r) = (if k = n then [r] else []) @ bodies n r"
| "bodies n (Seq r1 r2) = bodies n r1 @ bodies n r2"
| "bodies n (Alt r1 r2) = bodies n r1 @ bodies n r2"
| "bodies n (Opt r) = bodies n r"
| "bodies n r = []"

text \<open>\<open>first_ok E f r c\<close> is false only if no match of \<open>r\<close> can start with the
  character \<open>c\<close> (a match of the empty text counts as starting with any character).\<close>

fun first_ok :: "ucd \<Rightarrow> flags \<Rightarrow> regex \<Rightarrow> nat \<Rightarrow> bool" where
  "first_ok E f (Lit []) c = True"
| "first_ok E f (Lit (p # ps)) c = chr_eq E f p c"
| "first_ok E f (One a) c = atom_ok E f a c"
| "first_ok E f (Rep a lo hi greedy) c = (lo = 0 \<or> atom_ok E f a c)"
| "first_ok E f (Seq r1 r2) c = first_ok E f r1 c"
| "first_ok E f (Alt r1 r2) c = (first_ok E f r1 c \<or> first_ok E f r2 c)"
| "first_ok E f (Opt r) c = True"
| "first_ok E f (Group n r) c = first_ok E f r c"


text \<open>Reading a result: \<open>returns x\<close> says that no exception was raised, and
  \<open>field_of sel x\<close> is the field \<open>sel\<close> of the returned record.\<close>

definition returns :: "pyerr + 'a \<Rightarrow> bool" where
  "returns x = (case x of Inl e \<Rightarrow> False | Inr r \<Rightarrow> True)"

definition field_of :: "('a \<Rightarrow> 'b option) \<Rightarrow> pyerr + 'a \<Rightarrow> 'b option" where
  "field_of sel x = (case x of Inl e \<Rightarrow> None | Inr r \<Rightarrow> sel r)"

text \<open>Four characters, each a decimal digit in the sense of \<open>\d\<close>.\<close>

definition digits4 :: "ucd \<Rightarrow> pystr \<Rightarrow> bool" where
  "digits4 E g = (length g = 4 \<and> list_all (is_decimal E) g)"

section \<open>Substrings and lower-casing\<close>

lemma starts_with_iff: "starts_with k s \<longleftrightarrow> (\<exists>v. s = k @ v)"
  by (induction k s rule: starts_with.induct) auto

lemma contains_iff: "contains k s \<longleftrightarrow> (\<exists>u v. s = u @ k @ v)"
proof (induction s)
  case Nil
  then show ?case by auto
next
  case (Cons c cs)
  show ?case
  proof
    assume "contains k (c # cs)"
    then consider "starts_with k (c # cs)" | "contains k cs" by auto
    then show "\<exists>u v. c # cs = u @ k @ v"
    proof cases
      case 1
      then obtain v where "c # cs = k @ v" by (auto simp: starts_with_iff)
      then have "c # cs = [] @ k @ v" by simp
      then show ?thesis by blast
    next
      case 2
      then obtain u v where "cs = u @ k @ v" using Cons.IH by blast
      then have "c # cs = (c # u) @ k @ v" by simp
      then show ?thesis by blast
    qed
  next
    assume "\<exists>u v. c # cs = u @ k @ v"
    then obtain u v where uv: "c # cs = u @ k @ v" by blast
    show "contains k (c # cs)"
    proof (cases u)
      case Nil
      with uv have "starts_with k (c # cs)" by (auto simp: starts_with_iff)
      then show ?thesis by simp
    next
      case (Cons a u')
      with uv have "cs = u' @ k @ v" by simp
      then have "contains k cs" using Cons.IH by blast
      then show ?thesis by simp
    qed
  qed
qed

lemma contains_suffix_part: "contains (a @ b) s \<Longrightarrow> contains b s"
proof -
  assume "contains (a @ b) s"
  then obtain u v where "s = u @ (a @ b) @ v" unfolding contains_iff by blast
  then have "s = (u @ a) @ b @ v" by simp
  then show ?thesis unfolding contains_iff by blast
qed

lemma py_append: "py (a @ b) = py a @ py b"
  by (simp add: py_def)

lemma lower_from_append:
  "\<exists>x. lower_from E b (pre @ rest) = x @ lower_from E (b @ pre) rest"
proof (induction pre arbitrary: b)
  case Nil
  then show ?case by simp
next
  case (Cons c pre)
  from Cons.IH[of "b @ [c]"] obtain x where
    "lower_from E (b @ [c]) (pre @ rest) = x @ lower_from E ((b @ [c]) @ pre) rest" by blast
  then show ?case by simp
qed

lemma ascii_lower_ascii: "ascii_lower c < 128 \<Longrightarrow> c < 128"
  by (auto simp: ascii_lower_def split: if_splits)

lemma lower_from_ascii:
  "\<forall>c\<in>set w. c < 128 \<Longrightarrow> lower_from E b (w @ rest) = map ascii_lower w @ lower_from E (b @ w) rest"
  by (induction w arbitrary: b) auto

lemma lower_keeps_ascii_word:
  assumes "text = pre @ w @ post" and "\<forall>c\<in>set w. c < 128"
  shows "contains (map ascii_lower w) (lower E text)"
proof -
  obtain x where x: "lower_from E [] (pre @ (w @ post)) = x @ lower_from E ([] @ pre) (w @ post)"
    using lower_from_append[of E "[]" pre "w @ post"] by blast
  have "lower_from E ([] @ pre) (w @ post) = map ascii_lower w @ lower_from E (([] @ pre) @ w) post"
    using assms(2) by (rule lower_from_ascii)
  with x have "lower E text = x @ map ascii_lower w @ lower_from E (([] @ pre) @ w) post"
    by (simp add: lower_def assms(1))
  then show ?thesis unfolding contains_iff by blast
qed


section \<open>Issuer detection: properties\<close>




lemma detect_issuer_empty: "detect_issuer E [] = py ''Unknown''"
  by (simp add: detect_issuer_def Let_def lower_def py_def)










text \<open>
  C10. A text in which the word "purchase" occurs in any letter case, and whose
  lower-cased form contains neither "american express" nor "amex", is classified
  as Chase: "purchase" ends in the keyword "chase".
\<close>

theorem detect_issuer_purchase:
  assumes "text = pre @ w @ post" and "map ascii_lower w = py ''purchase''"
    and "\<not> contains (py ''american express'') (lower E text)"
    and "\<not> contains (py ''amex'') (lower E text)"
  shows "detect_issuer E text = py ''Chase''"
proof -
  have "\<forall>c\<in>set w. ascii_lower c < 128"
  proof
    fix c assume "c \<in> set w"
    then have "ascii_lower c \<in> set (map ascii_lower w)" by simp
    then have "ascii_lower c \<in> set (py ''purchase'')" using assms(2) by simp
    then show "ascii_lower c < 128" by (auto simp: py_def)
  qed
  then have "\<forall>c\<in>set w. c < 128" using ascii_lower_ascii by blast
  with assms(1) have "contains (map ascii_lower w) (lower E text)"
    by (rule lower_keeps_ascii_word)
  then have "contains (py ''pur'' @ py ''chase'') (lower E text)"
    using assms(2) by (simp add: py_def)
  then have "contains (py ''chase'') (lower E text)" by (rule contains_suffix_part)
  then show ?thesis using assms(3,4) by (simp add: detect_issuer_def Let_def)
qed

theorem detect_issuer_purchase_witness:
  "detect_issuer ucd_sample (py ''Online PURCHASE 12.00'') = py ''Chase''"
proof -
  have 1: "py ''Online PURCHASE 12.00'' = py ''Online '' @ py ''PURCHASE'' @ py '' 12.00''"
    by (simp add: py_def)
  have 2: "map ascii_lower (py ''PURCHASE'') = py ''purchase''"
    by (simp add: py_def ascii_lower_def)
  have 3: "\<not> contains (py ''american express'') (lower ucd_sample (py ''Online PURCHASE 12.00''))"
    by (simp add: py_def lower_def ascii_lower_def)
  have 4: "\<not> contains (py ''amex'') (lower ucd_sample (py ''Online PURCHASE 12.00''))"
    by (simp add: py_def lower_def ascii_lower_def)
  show ?thesis using detect_issuer_purchase[OF 1 2 3 4] .
qed

section \<open>Evaluating patterns\<close>

lemmas re_defs = search_def match_at_def words_def plus_def star_def star_lazy_def opt1_def
  times_def IC_def ICS_def dec_bound_def

lemmas pat_defs = colon_space_def period_chars_def date_chars_def amount_chars_def letters_def
  letters_digits_space_def four_digits_def period_pat_def date_pat_def amount_pat_def
  variant_pat_def issuer_card_pat_def amex_last4_first_def ending_in_lazy_def
  chase_variant_first_def ending_in_space_def masked_number_def ending_in_greedy_def
  generic_variant_first_def generic_period_first_def generic_date_def generic_amount_def

lemma match_lit_empty: "match_lit E f (py (c # cs)) [] = None"
  by (simp add: py_def)

lemma search_lit_empty: "search E f (Seq (Lit (py (c # cs))) r) [] = None"
  by (simp add: search_def match_at_def match_lit_empty)

lemma normalize_spaces_empty: "normalize_spaces E [] = []"
  by (simp add: normalize_spaces_def strip_def)

lemma parse_generic_empty:
  "parse_generic E P [] =
     Inr \<lparr>issuer = py ''Unknown'', last4 = None, card_variant = None, statement_period = None,
          due_date = None, amount_due = None\<rparr>"
  by (simp add: parse_generic_def fill_def second_def re_defs pat_defs match_lit_empty)

lemma parse_text_empty:
  "parse_text E P [] =
     Inr \<lparr>st_issuer = py ''Unknown'', st_last4 = None, st_card_variant = None,
          st_statement_period = None, st_due_date = None, st_amount_due = None,
          raw_sample_snippet = []\<rparr>"
proof -
  have "py ''Unknown'' \<noteq> py ''American Express''" "py ''Unknown'' \<noteq> py ''Chase''"
    "py ''Unknown'' \<noteq> py ''Citi''" "py ''Unknown'' \<noteq> py ''Bank of America''"
    "py ''Unknown'' \<noteq> py ''HSBC''"
    by (simp_all add: py_def)
  then show ?thesis
    by (simp add: parse_text_def Let_def normalize_spaces_empty detect_issuer_empty
        parse_generic_empty)
qed

text \<open>
  C7. When the text extraction yields the empty text, \<open>parse_statement\<close> returns a
  record (no exception): the issuer is \<open>Unknown\<close> and \<open>last4\<close>, \<open>card_variant\<close>,
  \<open>statement_period\<close>, \<open>due_date\<close> and \<open>amount_due\<close> are all \<open>None\<close>.
\<close>

theorem empty_text_record:
  assumes "extract_text_from_pdf_bytes R pdf_bytes = Inr []"
  shows "parse_statement R E P pdf_bytes =
     Inr \<lparr>st_issuer = py ''Unknown'', st_last4 = None, st_card_variant = None,
          st_statement_period = None, st_due_date = None, st_amount_due = None,
          raw_sample_snippet = []\<rparr>"
  using assms by (simp add: parse_statement_def parse_text_empty)

theorem empty_text_record_witness:
  "parse_statement (\<lambda>b. Inr [Raises, Returns None, Returns (Some [])]) ucd_sample never_parses [37, 80, 68, 70] =
     Inr \<lparr>st_issuer = py ''Unknown'', st_last4 = None, st_card_variant = None,
          st_statement_period = None, st_due_date = None, st_amount_due = None,
          raw_sample_snippet = []\<rparr>"
proof -
  have "extract_text_from_pdf_bytes (\<lambda>b. Inr [Raises, Returns None, Returns (Some [])]) [37, 80, 68, 70] = Inr []"
    by (simp add: extract_text_from_pdf_bytes_def)
  then show ?thesis by (rule empty_text_record)
qed


section \<open>Dates\<close>

lemma dec_digit: "n < 10 \<Longrightarrow> dec n = [48 + n]"
  by (subst dec.simps) simp

lemma dec_two: "10 \<le> n \<Longrightarrow> n < 100 \<Longrightarrow> dec n = [48 + n div 10, 48 + n mod 10]"
  by (subst dec.simps) (simp add: dec_digit)

lemma dec_three: "100 \<le> n \<Longrightarrow> n < 1000 \<Longrightarrow> dec n = [48 + n div 100, 48 + n div 10 mod 10, 48 + n mod 10]"
proof -
  assume n: "100 \<le> n" "n < 1000"
  then have "10 \<le> n div 10" "n div 10 < 100" by arith+
  then have "dec (n div 10) = [48 + n div 10 div 10, 48 + n div 10 mod 10]" by (rule dec_two)
  moreover have "n div 10 div 10 = n div 100" by (simp add: div_mult2_eq[symmetric])
  moreover have "\<not> n < 10" using n by simp
  ultimately show ?thesis by (subst dec.simps) simp
qed

lemma dec_four: "1000 \<le> n \<Longrightarrow> n < 10000 \<Longrightarrow>
    dec n = [48 + n div 1000, 48 + n div 100 mod 10, 48 + n div 10 mod 10, 48 + n mod 10]"
proof -
  assume n: "1000 \<le> n" "n < 10000"
  then have "100 \<le> n div 10" "n div 10 < 1000" by arith+
  then have "dec (n div 10) = [48 + n div 10 div 100, 48 + n div 10 div 10 mod 10, 48 + n div 10 mod 10]"
    by (rule dec_three)
  moreover have "n div 10 div 100 = n div 1000" "n div 10 div 10 = n div 100"
    by (simp_all add: div_mult2_eq[symmetric])
  moreover have "\<not> n < 10" using n by simp
  ultimately show ?thesis by (subst dec.simps) simp
qed

lemma replicate_small: "replicate 1 x = [x]" "replicate 2 x = [x, x]" "replicate 3 x = [x, x, x]"
  by (simp_all add: numeral_2_eq_2 numeral_3_eq_3)

lemma zfill2: "n < 100 \<Longrightarrow> zfill 2 (dec n) = [48 + n div 10, 48 + n mod 10]"
  by (cases "n < 10") (simp_all add: zfill_def dec_digit dec_two replicate_small)

lemma zfill4: "n < 10000 \<Longrightarrow>
    zfill 4 (dec n) = [48 + n div 1000, 48 + n div 100 mod 10, 48 + n div 10 mod 10, 48 + n mod 10]"
proof -
  assume n: "n < 10000"
  consider "n < 10" | "10 \<le> n" "n < 100" | "100 \<le> n" "n < 1000" | "1000 \<le> n"
    by linarith
  then show ?thesis
  proof cases
    case 1
    then have "n div 1000 = 0" "n div 100 = 0" "n div 10 = 0" "n mod 10 = n" by simp_all
    with 1 show ?thesis by (simp add: zfill_def dec_digit replicate_small)
  next
    case 2
    then have "n div 1000 = 0" "n div 100 = 0" by simp_all
    with 2 show ?thesis by (simp add: zfill_def dec_two replicate_small)
  next
    case 3
    then have "n div 100 < 10" by arith
    with 3 have "n div 1000 = 0" "n div 100 mod 10 = n div 100" by simp_all
    with 3 show ?thesis by (simp add: zfill_def dec_three replicate_small)
  next
    case 4 then show ?thesis using n by (simp add: zfill_def dec_four)
  qed
qed

lemma isoformat_shape:
  "py_date_ok d \<Longrightarrow> isoformat d = yyyy_mm_dd (year d) (month d) (day d)"
proof -
  assume "py_date_ok d"
  then have "year d < 10000" "month d < 100" "day d < 100"
    by (simp_all add: py_date_ok_def)
  then have "zfill 4 (dec (year d)) =
      [48 + year d div 1000, 48 + year d div 100 mod 10, 48 + year d div 10 mod 10, 48 + year d mod 10]"
    "zfill 2 (dec (month d)) = [48 + month d div 10, 48 + month d mod 10]"
    "zfill 2 (dec (day d)) = [48 + day d div 10, 48 + day d mod 10]"
    by (simp_all only: zfill4 zfill2)
  then show ?thesis by (simp only: isoformat_def yyyy_mm_dd_def append.simps)
qed

text \<open>
  C5. \<open>try_parse_date\<close> returns a value for every text and every behaviour of the
  date parser: when the parser raises, the result is \<open>None\<close>; when it returns a
  \<open>datetime\<close>, the result is the date alone in the form \<open>YYYY-MM-DD\<close>.
\<close>

theorem try_parse_date_never_raises:
  "(P text = Inl e \<longrightarrow> try_parse_date P text = None)
   \<and> (P text = Inr dt \<and> py_date_ok (date_of dt) \<longrightarrow>
        try_parse_date P text = Some (yyyy_mm_dd (dt_year dt) (dt_month dt) (dt_day dt)))"
  using isoformat_shape[of "date_of dt"]
  by (auto simp: try_parse_date_def date_of_def)

theorem try_parse_date_never_raises_witness:
  "try_parse_date sample_parser (py ''February 30, 2024'') = None
   \<and> try_parse_date sample_parser (py ''not a date'') = None
   \<and> try_parse_date sample_parser (py ''March 5, 2024'') = Some (py ''2024-03-05'')"
proof -
  have a: "sample_parser (py ''February 30, 2024'') = Inl ParserError"
    by (simp add: sample_parser_def py_def)
  have b: "sample_parser (py ''not a date'') = Inl ParserError"
    by (simp add: sample_parser_def py_def)
  have c: "sample_parser (py ''March 5, 2024'') =
      Inr \<lparr>dt_year = 2024, dt_month = 3, dt_day = 5, dt_hour = 0, dt_minute = 0, dt_second = 0\<rparr>"
    by (simp add: sample_parser_def)
  have ok: "py_date_ok (date_of \<lparr>dt_year = 2024, dt_month = 3, dt_day = 5, dt_hour = 0, dt_minute = 0, dt_second = 0\<rparr>)"
    by (simp add: py_date_ok_def date_of_def)
  have fmt: "yyyy_mm_dd 2024 3 5 = py ''2024-03-05''"
    by (simp add: yyyy_mm_dd_def py_def)
  show ?thesis
    using try_parse_date_never_raises[of sample_parser "py ''February 30, 2024''" ParserError]
      try_parse_date_never_raises[of sample_parser "py ''not a date''" ParserError]
      try_parse_date_never_raises[of sample_parser "py ''March 5, 2024''" _
        "\<lparr>dt_year = 2024, dt_month = 3, dt_day = 5, dt_hour = 0, dt_minute = 0, dt_second = 0\<rparr>"]
      a b c ok fmt
    by simp
qed


section \<open>Whitespace normalisation\<close>

lemma split_ws_Nil: "split_ws E [] = []"
  by (subst split_ws.simps) simp

lemma split_ws_space: "is_space E c \<Longrightarrow> split_ws E (c # cs) = split_ws E cs"
  by (subst split_ws.simps, subst (2) split_ws.simps) simp

lemma split_ws_word:
  "\<not> is_space E c \<Longrightarrow> split_ws E (c # cs) =
     (c # takeWhile (\<lambda>x. \<not> is_space E x) cs) # split_ws E (dropWhile (\<lambda>x. \<not> is_space E x) cs)"
  by (subst split_ws.simps) simp

lemma split_ws_dropWhile: "split_ws E (dropWhile (is_space E) s) = split_ws E s"
  by (induction s) (simp_all add: split_ws_space)

lemma split_ws_word_space:
  "\<not> is_space E c \<Longrightarrow> is_space E d \<Longrightarrow> split_ws E (c # d # cs) = [c] # split_ws E (d # cs)"
  by (simp add: split_ws_word)

lemma split_ws_word_word:
  "\<not> is_space E c \<Longrightarrow> \<not> is_space E d \<Longrightarrow>
   split_ws E (c # d # cs) = (c # hd (split_ws E (d # cs))) # tl (split_ws E (d # cs))"
  by (simp add: split_ws_word)

lemma join_Cons: "join sep (t # ts) = (if ts = [] then t else t @ sep @ join sep ts)"
  by (cases ts) simp_all

lemma last_dropWhile: "dropWhile P s \<noteq> [] \<Longrightarrow> last (dropWhile P s) = last s"
  by (induction s) (auto split: if_splits)

lemma split_ws_empty_iff: "split_ws E s = [] \<longleftrightarrow> dropWhile (is_space E) s = []"
proof (cases "dropWhile (is_space E) s")
  case Nil
  have "split_ws E s = []" by (subst split_ws.simps) (simp only: Nil list.case)
  then show ?thesis using Nil by simp
next
  case (Cons a as)
  have "split_ws E s \<noteq> []" by (subst split_ws.simps) (simp only: Cons list.case list.distinct not_False_eq_True)
  then show ?thesis using Cons by simp
qed

lemma sub_spaces_shape: "sub_spaces E s = lead E s @ join [32] (split_ws E s) @ trail E s"
proof (induction E s rule: sub_spaces.induct)
  case (1 E)
  then show ?case by (simp add: lead_def trail_def split_ws_Nil)
next
  case (2 E c cs)
  show ?case
  proof (cases "is_space E c")
    case True
    let ?d = "dropWhile (is_space E) cs"
    have ih: "sub_spaces E ?d = lead E ?d @ join [32] (split_ws E ?d) @ trail E ?d"
      using 2(1)[OF True] .
    have l: "lead E ?d = []"
      using hd_dropWhile[of "is_space E" cs] by (auto simp: lead_def)
    have s: "split_ws E (c # cs) = split_ws E ?d"
      using True by (simp add: split_ws_space split_ws_dropWhile)
    have t: "trail E (c # cs) = trail E ?d"
    proof (cases "?d = []")
      case empty: True
      have "split_ws E ?d = []" by (simp only: empty split_ws_Nil)
      then show ?thesis using s by (simp add: trail_def)
    next
      case False
      then have "last ?d = last cs" by (rule last_dropWhile)
      moreover from False have "cs \<noteq> []" by auto
      ultimately show ?thesis using s by (simp add: trail_def)
    qed
    show ?thesis using True ih l s t by (simp add: lead_def)
  next
    case False
    have ih: "sub_spaces E cs = lead E cs @ join [32] (split_ws E cs) @ trail E cs"
      using 2(2)[OF False] .
    show ?thesis
    proof (cases cs)
      case Nil
      then show ?thesis using False by (simp add: lead_def trail_def split_ws_word split_ws_Nil)
    next
      case (Cons d ds)
      show ?thesis
      proof (cases "is_space E d")
        case True
        have sw: "split_ws E (c # cs) = [c] # split_ws E cs"
          using False True Cons by (simp add: split_ws_word_space)
        show ?thesis
        proof (cases "split_ws E cs = []")
          case True
          then have "\<forall>x\<in>set cs. is_space E x" by (simp add: split_ws_empty_iff)
          moreover have "last cs \<in> set cs" using Cons by (intro last_in_set) simp
          ultimately have "is_space E (last cs)" by blast
          then show ?thesis using True False \<open>is_space E d\<close> Cons ih sw
            by (simp add: lead_def trail_def)
        next
          case nonempty: False
          then show ?thesis using False \<open>is_space E d\<close> Cons ih sw
            by (simp add: lead_def trail_def join_Cons)
        qed
      next
        case nsp: False
        have sw: "split_ws E (c # cs) = (c # hd (split_ws E cs)) # tl (split_ws E cs)"
          using False nsp Cons by (simp add: split_ws_word_word)
        have ne: "split_ws E cs \<noteq> []"
          using nsp Cons by (simp add: split_ws_empty_iff)
        then obtain w ws where wws: "split_ws E cs = w # ws" by (cases "split_ws E cs") auto
        show ?thesis using False nsp Cons ih sw wws
          by (simp add: lead_def trail_def join_Cons)
      qed
    qed
  qed
qed

lemma spaceless_Nil: "spaceless E []"
  by (simp add: spaceless_def)

lemma spaceless_Cons:
  "spaceless E (w # ws) \<longleftrightarrow> w \<noteq> [] \<and> list_all (\<lambda>c. \<not> is_space E c) w \<and> spaceless E ws"
  by (simp add: spaceless_def)

lemma list_all_takeWhile: "list_all P (takeWhile P xs)"
  by (induction xs) simp_all

lemma spaceless_split_ws: "spaceless E (split_ws E s)"
proof (induction E s rule: split_ws.induct)
  case (1 E s)
  show ?case
  proof (cases "dropWhile (is_space E) s")
    case Nil
    have "split_ws E s = []" by (subst split_ws.simps) (simp only: Nil list.case)
    then show ?thesis by (simp only: spaceless_Nil)
  next
    case (Cons c cs)
    have eq: "split_ws E s = (c # takeWhile (\<lambda>x. \<not> is_space E x) cs)
        # split_ws E (dropWhile (\<lambda>x. \<not> is_space E x) cs)"
      by (subst split_ws.simps) (simp only: Cons list.case)
    from Cons have "s = takeWhile (is_space E) s @ c # cs \<and> \<not> is_space E c"
      by (rule dropWhile_eq_Cons_conv[THEN iffD1])
    then have c: "\<not> is_space E c" by (rule conjunct2)
    have t: "list_all (\<lambda>x. \<not> is_space E x) (takeWhile (\<lambda>x. \<not> is_space E x) cs)"
      by (rule list_all_takeWhile)
    have r: "spaceless E (split_ws E (dropWhile (\<lambda>x. \<not> is_space E x) cs))"
      using 1[OF Cons] .
    show ?thesis unfolding eq spaceless_Cons using c t r by simp
  qed
qed

lemma split_ws_single:
  assumes "\<not> is_space E c" and "\<forall>x\<in>set w. \<not> is_space E x"
  shows "split_ws E (c # w) = [c # w]"
proof -
  have t: "takeWhile (\<lambda>x. \<not> is_space E x) w = w" using assms(2) by simp
  have d: "dropWhile (\<lambda>x. \<not> is_space E x) w = []" using assms(2) by simp
  show ?thesis by (simp only: split_ws_word[OF assms(1)] t d split_ws_Nil)
qed

lemma is_space_32: "is_space E 32"
  by (simp add: is_space_def)

lemma split_ws_word_then_space:
  assumes "\<not> is_space E c" and "\<forall>x\<in>set w. \<not> is_space E x"
  shows "split_ws E ((c # w) @ 32 # t) = (c # w) # split_ws E t"
proof -
  have t: "takeWhile (\<lambda>x. \<not> is_space E x) (w @ 32 # t) = w"
    using assms(2) by (simp add: takeWhile_tail is_space_32)
  have d: "dropWhile (\<lambda>x. \<not> is_space E x) (w @ 32 # t) = 32 # t"
    using assms(2) by (simp add: dropWhile_append3 is_space_32)
  have "split_ws E (32 # t) = split_ws E t" by (rule split_ws_space[OF is_space_32])
  then show ?thesis by (simp only: append_Cons split_ws_word[OF assms(1)] t d)
qed

lemma split_ws_join: "spaceless E ws \<Longrightarrow> split_ws E (join [32] ws) = ws"
proof (induction ws)
  case Nil
  then show ?case by (simp add: split_ws_Nil)
next
  case (Cons w ws)
  from Cons.prems obtain c w' where w: "w = c # w'" "\<not> is_space E c" "\<forall>x\<in>set w'. \<not> is_space E x"
    by (cases w) (auto simp: spaceless_Cons list_all_iff)
  from Cons.prems have "spaceless E ws" by (simp add: spaceless_Cons)
  then have ih: "split_ws E (join [32] ws) = ws" by (rule Cons.IH)
  show ?case
  proof (cases ws)
    case Nil
    then show ?thesis using w by (simp add: split_ws_single)
  next
    case (Cons v vs)
    then have "join [32] (w # ws) = (c # w') @ 32 # join [32] ws" using w by simp
    then show ?thesis
      using split_ws_word_then_space[OF w(2,3), of "join [32] ws"] w(1) ih by simp
  qed
qed

lemma join_spaceless_ends:
  "spaceless E ws \<Longrightarrow> ws \<noteq> [] \<Longrightarrow>
     join [32] ws \<noteq> [] \<and> \<not> is_space E (hd (join [32] ws)) \<and> \<not> is_space E (last (join [32] ws))"
proof (induction ws)
  case Nil
  then show ?case by simp
next
  case (Cons w ws)
  from Cons.prems have w: "w \<noteq> []" "\<forall>c\<in>set w. \<not> is_space E c" and ws: "spaceless E ws"
    by (simp_all add: spaceless_Cons list_all_iff)
  have hdw: "\<not> is_space E (hd w)" and lastw: "\<not> is_space E (last w)"
    using w by (simp_all add: hd_in_set last_in_set)
  show ?case
  proof (cases ws)
    case Nil
    then show ?thesis using w hdw lastw by simp
  next
    case (Cons v vs)
    then have j: "join [32] (w # ws) = w @ 32 # join [32] ws" by simp
    have "join [32] ws \<noteq> [] \<and> \<not> is_space E (last (join [32] ws))"
      using Cons.IH ws Cons \<open>spaceless E ws \<Longrightarrow> ws \<noteq> [] \<Longrightarrow> _\<close> by simp
    then show ?thesis using w hdw unfolding j by simp
  qed
qed

lemma no_double_space_word:
  "\<forall>c\<in>set w. \<not> is_space E c \<Longrightarrow> no_double_space E t \<Longrightarrow> no_double_space E (w @ t)"
proof (induction w)
  case Nil
  then show ?case by simp
next
  case (Cons a w)
  then have "no_double_space E (w @ t)" by simp
  moreover have "\<not> is_space E a" using Cons.prems(1) by simp
  ultimately show ?case by (cases "w @ t") simp_all
qed

lemma no_double_space_join: "spaceless E ws \<Longrightarrow> no_double_space E (join [32] ws)"
proof (induction ws)
  case Nil
  then show ?case by simp
next
  case (Cons w ws)
  from Cons.prems have w: "\<forall>c\<in>set w. \<not> is_space E c" and ws: "spaceless E ws"
    by (simp_all add: spaceless_Cons list_all_iff)
  show ?case
  proof (cases ws)
    case Nil
    then show ?thesis using no_double_space_word[OF w, of "[]"] by simp
  next
    case (Cons v vs)
    then have j: "join [32] (w # ws) = w @ 32 # join [32] ws" by simp
    have e: "join [32] ws \<noteq> [] \<and> \<not> is_space E (hd (join [32] ws))"
      using join_spaceless_ends[OF ws] Cons by simp
    have "no_double_space E (join [32] ws)" using Cons.IH ws \<open>spaceless E ws \<Longrightarrow> _\<close> by simp
    with e have "no_double_space E (32 # join [32] ws)" by (cases "join [32] ws") simp_all
    then show ?thesis unfolding j using w by (rule no_double_space_word[rotated])
  qed
qed

lemma strip_core:
  assumes "t = [] \<or> (\<not> is_space E (hd t) \<and> \<not> is_space E (last t))"
    and "\<forall>c\<in>set a. is_space E c" and "\<forall>c\<in>set b. is_space E c"
  shows "strip E (a @ t @ b) = t"
proof (cases t)
  case Nil
  have "dropWhile (is_space E) (a @ [] @ b) = []" using assms(2,3) by simp
  then show ?thesis unfolding strip_def Nil by (simp only: rev.simps dropWhile.simps)
next
  case (Cons c t')
  with assms(1) have h: "\<not> is_space E c" and l: "\<not> is_space E (last t)" by simp_all
  have 1: "dropWhile (is_space E) (a @ t @ b) = t @ b"
    using assms(2) h Cons by (simp add: dropWhile_append2)
  have "rev t \<noteq> []" using Cons by simp
  then obtain x xs where r: "rev t = x # xs" by (cases "rev t") auto
  then have "x = last t" by (metis last_rev list.sel(1) rev_rev_ident)
  with l have nx: "\<not> is_space E x" by simp
  have "dropWhile (is_space E) (rev b @ rev t) = dropWhile (is_space E) (rev t)"
    by (rule dropWhile_append2) (use assms(3) in auto)
  also have "\<dots> = rev t" using nx by (simp only: r dropWhile.simps if_False)
  finally have 2: "dropWhile (is_space E) (rev b @ rev t) = rev t" .
  show ?thesis unfolding strip_def 1 by (simp add: 2)
qed

lemma normalize_spaces_join: "normalize_spaces E s = join [32] (split_ws E s)"
proof -
  have sp: "spaceless E (split_ws E s)" by (rule spaceless_split_ws)
  have ends: "join [32] (split_ws E s) = [] \<or>
      (\<not> is_space E (hd (join [32] (split_ws E s))) \<and> \<not> is_space E (last (join [32] (split_ws E s))))"
    using join_spaceless_ends[OF sp] by (cases "split_ws E s") auto
  have "\<forall>c\<in>set (lead E s). is_space E c" "\<forall>c\<in>set (trail E s). is_space E c"
    by (simp_all add: lead_def trail_def is_space_32)
  with ends show ?thesis
    unfolding normalize_spaces_def sub_spaces_shape by (rule strip_core)
qed

text \<open>
  C8. \<open>normalize_spaces\<close> is idempotent; its result has no two adjacent whitespace
  characters and, when it is not empty, neither starts nor ends with whitespace; and it
  is the words of the text joined by single spaces, so that each maximal run of
  whitespace between two words, newlines (code point 10) included, has become one
  space.
\<close>

theorem normalize_spaces_idempotent:
  "normalize_spaces E (normalize_spaces E s) = normalize_spaces E s
   \<and> no_double_space E (normalize_spaces E s)
   \<and> (normalize_spaces E s \<noteq> [] \<longrightarrow>
        \<not> is_space E (hd (normalize_spaces E s)) \<and> \<not> is_space E (last (normalize_spaces E s)))
   \<and> normalize_spaces E s = join [32] (split_ws E s)
   \<and> is_space E 10"
proof -
  have sp: "spaceless E (split_ws E s)" by (rule spaceless_split_ws)
  have 1: "normalize_spaces E (normalize_spaces E s) = normalize_spaces E s"
    by (simp add: normalize_spaces_join split_ws_join[OF sp])
  have 2: "no_double_space E (normalize_spaces E s)"
    by (simp add: normalize_spaces_join no_double_space_join[OF sp])
  have 3: "normalize_spaces E s \<noteq> [] \<longrightarrow>
        \<not> is_space E (hd (normalize_spaces E s)) \<and> \<not> is_space E (last (normalize_spaces E s))"
    using join_spaceless_ends[OF sp] unfolding normalize_spaces_join
    by (cases "split_ws E s") auto
  have 4: "is_space E 10" by (simp add: is_space_def)
  show ?thesis by (intro conjI 1 2 3 4 normalize_spaces_join)
qed

theorem normalize_spaces_idempotent_witness:
  "normalize_spaces ucd_sample [10, 32, 97, 98, 9, 10, 160, 99, 32] = [97, 98, 32, 99]
   \<and> normalize_spaces ucd_sample [97, 98, 32, 99] = [97, 98, 32, 99]
   \<and> join [32] (split_ws ucd_sample [10, 32, 97, 98, 9, 10, 160, 99, 32]) = [97, 98, 32, 99]
   \<and> no_double_space ucd_sample [97, 98, 32, 99]"
proof -
  have e: "normalize_spaces ucd_sample [10, 32, 97, 98, 9, 10, 160, 99, 32] = [97, 98, 32, 99]"
    by (simp add: normalize_spaces_def strip_def is_space_def ucd_sample_def)
  note t = normalize_spaces_idempotent[of ucd_sample "[10, 32, 97, 98, 9, 10, 160, 99, 32]", unfolded e]
  from t have 1: "normalize_spaces ucd_sample [97, 98, 32, 99] = [97, 98, 32, 99]"
    by (rule conjunct1)
  from t have 2: "no_double_space ucd_sample [97, 98, 32, 99]"
    by (elim conjE)
  from t have 3: "[97, 98, 32, 99] = join [32] (split_ws ucd_sample [10, 32, 97, 98, 9, 10, 160, 99, 32])"
    by (elim conjE)
  show ?thesis by (intro conjI e 1 2 3[symmetric])
qed


section \<open>The first matching pattern\<close>

lemma find_first_regex_first:
  assumes "search E ICS p text = Some mo"
  shows "find_first_regex E text (p # ps) =
     (if 0 < ngroups (mre mo) then
        (case mgroup mo 1 of None \<Rightarrow> Inl AttributeError | Some g \<Rightarrow> Inr (Some (p, strip E g)))
      else Inr (Some (p, strip E (mtext mo))))"
  using assms by simp

lemma find_first_regex_skip:
  "search E ICS p text = None \<Longrightarrow> find_first_regex E text (p # ps) = find_first_regex E text ps"
  by simp

lemma find_first_regex_none_iff:
  "find_first_regex E text ps = Inr None \<longleftrightarrow> (\<forall>p\<in>set ps. search E ICS p text = None)"
  by (induction ps) (auto split: option.splits)


section \<open>The matcher finds only matches\<close>

lemma if_Some_D: "(if b then x else None) = Some y \<Longrightarrow> b \<and> x = Some y"
  by (cases b) simp_all

lemma match_lit_sound:
  "match_lit E f ps s = Some s' \<Longrightarrow> \<exists>w. s = w @ s' \<and> list_all2 (chr_eq E f) ps w"
proof (induction E f ps s rule: match_lit.induct)
  case (1 E f s)
  then show ?case by simp
next
  case (2 E f p ps)
  then show ?case by simp
next
  case (3 E f p ps c cs)
  from 3(2) have "(if chr_eq E f p c then match_lit E f ps cs else None) = Some s'"
    by (simp only: match_lit.simps)
  then have ok: "chr_eq E f p c" and rest: "match_lit E f ps cs = Some s'"
    by (auto dest: if_Some_D)
  from 3(1)[OF ok rest] obtain w where "cs = w @ s'" "list_all2 (chr_eq E f) ps w" by blast
  then have "c # cs = (c # w) @ s'" "list_all2 (chr_eq E f) (p # ps) (c # w)" using ok by simp_all
  then show ?case by blast
qed

lemma within_step: "within (lo - 1) (dec_bound hi) n \<Longrightarrow> hi \<noteq> Some 0 \<Longrightarrow> within lo hi (Suc n)"
proof (cases hi)
  case None
  assume "within (lo - 1) (dec_bound hi) n"
  then have "lo - 1 \<le> n" by (simp add: within_def)
  then have "lo \<le> Suc n" by arith
  then show ?thesis using None by (simp add: within_def)
next
  case (Some h)
  assume a: "within (lo - 1) (dec_bound hi) n" and nz: "hi \<noteq> Some 0"
  from a have "lo - 1 \<le> n" by (simp add: within_def)
  then have 1: "lo \<le> Suc n" by arith
  from a Some have "n \<le> h - 1" by (simp add: within_def dec_bound_def)
  moreover from nz Some have "h \<noteq> 0" by simp
  ultimately have "Suc n \<le> h" by arith
  with 1 show ?thesis using Some by (simp add: within_def)
qed

lemma within_zero: "within 0 hi 0"
  by (cases hi) (simp_all add: within_def)

lemma case_Some_D:
  "(case x of Some r \<Rightarrow> Some r | None \<Rightarrow> y) = Some res \<Longrightarrow> x = Some res \<or> (x = None \<and> y = Some res)"
  by (cases x) simp_all

lemma rep_Nil_D: "rep ok g lo hi [] k = Some res \<Longrightarrow> lo = 0 \<and> k [] = Some res"
  by (cases "0 < lo") simp_all

lemma rep_Cons_pos:
  "0 < lo \<Longrightarrow> rep ok g lo hi (c # cs) k = Some res \<Longrightarrow>
     ok c \<and> hi \<noteq> Some 0 \<and> rep ok g (lo - 1) (dec_bound hi) cs k = Some res"
  by (cases "ok c \<and> hi \<noteq> Some 0") simp_all

lemma rep_Cons_stop:
  "\<not> 0 < lo \<Longrightarrow> hi = Some 0 \<or> \<not> ok c \<Longrightarrow> rep ok g lo hi (c # cs) k = k (c # cs)"
  by simp

lemma rep_Cons_greedy:
  "\<not> 0 < lo \<Longrightarrow> \<not> (hi = Some 0 \<or> \<not> ok c) \<Longrightarrow> rep ok True lo hi (c # cs) k =
     (case rep ok True 0 (dec_bound hi) cs k of Some r \<Rightarrow> Some r | None \<Rightarrow> k (c # cs))"
  by simp

lemma rep_Cons_lazy:
  "\<not> 0 < lo \<Longrightarrow> \<not> (hi = Some 0 \<or> \<not> ok c) \<Longrightarrow> rep ok False lo hi (c # cs) k =
     (case k (c # cs) of Some r \<Rightarrow> Some r | None \<Rightarrow> rep ok False 0 (dec_bound hi) cs k)"
  by simp


lemma rep_soundI:
  "s = w @ s' \<Longrightarrow> within lo hi (length w) \<Longrightarrow> list_all ok w \<Longrightarrow> k s' = Some res \<Longrightarrow>
   \<exists>w s'. s = w @ s' \<and> within lo hi (length w) \<and> list_all ok w \<and> k s' = Some res"
  by (rule exI[of _ w], rule exI[of _ s']) simp

lemma rep_soundE:
  assumes "\<exists>w s'. s = w @ s' \<and> within lo hi (length w) \<and> list_all ok w \<and> k s' = Some res"
  obtains w s' where "s = w @ s'" "within lo hi (length w)" "list_all ok w" "k s' = Some res"
proof -
  from assms obtain w where "\<exists>s'. s = w @ s' \<and> within lo hi (length w) \<and> list_all ok w \<and> k s' = Some res"
    by (rule exE)
  then obtain s' where "s = w @ s' \<and> within lo hi (length w) \<and> list_all ok w \<and> k s' = Some res"
    by (rule exE)
  then have "s = w @ s'" "within lo hi (length w)" "list_all ok w" "k s' = Some res" by simp_all
  then show ?thesis by (rule that)
qed

lemma rep_sound:
  "rep ok g lo hi s k = Some res \<Longrightarrow>
   \<exists>w s'. s = w @ s' \<and> within lo hi (length w) \<and> list_all ok w \<and> k s' = Some res"
proof (induction ok g lo hi s k rule: rep.induct)
  case (1 ok g lo hi k)
  from rep_Nil_D[OF 1] have lo: "lo = 0" and k: "k [] = Some res" by simp_all
  have "within lo hi (length ([]::pystr))" unfolding lo by (simp add: within_zero)
  then show ?case using k by (intro rep_soundI[of _ "[]" "[]"]) simp_all
next
  case (2 ok g lo hi c cs k)
  have stop: ?case if "k (c # cs) = Some res" "lo = 0"
  proof -
    have "within lo hi (length ([]::pystr))" unfolding that(2) by (simp add: within_zero)
    then show ?thesis using that(1) by (intro rep_soundI[of _ "[]" "c # cs"]) simp_all
  qed
  have more: ?case if okc: "ok c" and nz: "hi \<noteq> Some 0"
    and ex: "\<exists>w s'. cs = w @ s' \<and> within (lo - 1) (dec_bound hi) (length w) \<and> list_all ok w \<and> k s' = Some res"
  proof -
    from ex obtain w s' where w: "cs = w @ s'" "within (lo - 1) (dec_bound hi) (length w)"
      "list_all ok w" "k s' = Some res" by (rule rep_soundE)
    have "within lo hi (Suc (length w))" using w(2) nz by (rule within_step)
    then show ?thesis using w okc by (intro rep_soundI[of _ "c # w" s']) simp_all
  qed
  show ?case
  proof (cases "0 < lo")
    case True
    from rep_Cons_pos[OF True 2(4)]
    have c: "ok c \<and> hi \<noteq> Some 0" and r: "rep ok g (lo - 1) (dec_bound hi) cs k = Some res"
      by simp_all
    from c have c1: "ok c" and c2: "hi \<noteq> Some 0" by simp_all
    from c1 c2 2(1)[OF True c r] show ?thesis by (rule more)
  next
    case False
    then have lo: "lo = 0" by simp
    show ?thesis
    proof (cases "hi = Some 0 \<or> \<not> ok c")
      case True
      from 2(4) have "k (c # cs) = Some res" by (simp only: rep_Cons_stop[where ok=ok and c=c, OF False True])
      then show ?thesis using lo by (rule stop)
    next
      case nostop: False
      then have c: "ok c" "hi \<noteq> Some 0" by simp_all
      show ?thesis
      proof (cases g)
        case True
        then have g: "g = True" by simp
        from 2(4) have
          "(case rep ok g 0 (dec_bound hi) cs k of Some r \<Rightarrow> Some r | None \<Rightarrow> k (c # cs)) = Some res"
          unfolding g by (simp only: rep_Cons_greedy[where ok=ok and c=c, OF False nostop])
        from case_Some_D[OF this]
        show ?thesis
        proof (elim disjE conjE)
          assume 1: "rep ok g 0 (dec_bound hi) cs k = Some res"
          have "\<exists>w s'. cs = w @ s' \<and> within 0 (dec_bound hi) (length w) \<and> list_all ok w \<and> k s' = Some res"
            using 2(2)[OF False nostop True 1] .
          then have "\<exists>w s'. cs = w @ s' \<and> within (lo - 1) (dec_bound hi) (length w) \<and> list_all ok w \<and> k s' = Some res"
            by (simp only: lo diff_0_eq_0)
          with c show ?thesis by (intro more)
        next
          assume "k (c # cs) = Some res"
          then show ?thesis using lo by (rule stop)
        qed
      next
        case lazy: False
        then have g: "g = False" by simp
        from 2(4) have
          "(case k (c # cs) of Some r \<Rightarrow> Some r | None \<Rightarrow> rep ok g 0 (dec_bound hi) cs k) = Some res"
          unfolding g by (simp only: rep_Cons_lazy[where ok=ok and c=c, OF False nostop])
        from case_Some_D[OF this]
        show ?thesis
        proof (elim disjE conjE)
          assume "k (c # cs) = Some res"
          then show ?thesis using lo by (rule stop)
        next
          assume n: "k (c # cs) = None" and 1: "rep ok g 0 (dec_bound hi) cs k = Some res"
          have "\<exists>w s'. cs = w @ s' \<and> within 0 (dec_bound hi) (length w) \<and> list_all ok w \<and> k s' = Some res"
            using 2(3)[OF False nostop lazy n 1] .
          then have "\<exists>w s'. cs = w @ s' \<and> within (lo - 1) (dec_bound hi) (length w) \<and> list_all ok w \<and> k s' = Some res"
            by (simp only: lo diff_0_eq_0)
          with c show ?thesis by (intro more)
        qed
      qed
    qed
  qed
qed

lemma m_soundI:
  "s = w @ s' \<Longrightarrow> run E f r w c c' \<Longrightarrow> k s' c' = Some res \<Longrightarrow>
   \<exists>w s' c'. s = w @ s' \<and> run E f r w c c' \<and> k s' c' = Some res"
  by (rule exI[of _ w], rule exI[of _ s'], rule exI[of _ c']) simp

lemma m_soundE:
  assumes "\<exists>w s' c'. s = w @ s' \<and> run E f r w c c' \<and> k s' c' = Some res"
  obtains w s' c' where "s = w @ s'" "run E f r w c c'" "k s' c' = Some res"
proof -
  from assms obtain w where "\<exists>s' c'. s = w @ s' \<and> run E f r w c c' \<and> k s' c' = Some res"
    by (rule exE)
  then obtain s' where "\<exists>c'. s = w @ s' \<and> run E f r w c c' \<and> k s' c' = Some res"
    by (rule exE)
  then obtain c' where "s = w @ s' \<and> run E f r w c c' \<and> k s' c' = Some res"
    by (rule exE)
  then have "s = w @ s'" "run E f r w c c'" "k s' c' = Some res" by simp_all
  then show ?thesis by (rule that)
qed

lemma case_None_D:
  "(case x of None \<Rightarrow> None | Some y \<Rightarrow> g y) = Some res \<Longrightarrow> \<exists>y. x = Some y \<and> g y = Some res"
  by (cases x) simp_all

lemma m_sound:
  "m E f r s c k = Some res \<Longrightarrow> \<exists>w s' c'. s = w @ s' \<and> run E f r w c c' \<and> k s' c' = Some res"
proof (induction r arbitrary: s c k res)
  case (Lit ps)
  from Lit have "(case match_lit E f ps s of None \<Rightarrow> None | Some s' \<Rightarrow> k s' c) = Some res"
    by (simp only: m.simps)
  from case_None_D[OF this] obtain s' where s': "match_lit E f ps s = Some s'" "k s' c = Some res"
    by (elim exE conjE)
  from match_lit_sound[OF s'(1)] obtain w where w: "s = w @ s'" "list_all2 (chr_eq E f) ps w"
    by (elim exE conjE)
  have "run E f (Lit ps) w c c" using w(2) by simp
  with w(1) show ?case using s'(2) by (rule m_soundI)
next
  case (One a)
  show ?case
  proof (cases s)
    case Nil
    with One show ?thesis by simp
  next
    case (Cons x xs)
    with One have "(if atom_ok E f a x then k xs c else None) = Some res" by simp
    from if_Some_D[OF this] have ok: "atom_ok E f a x" and k: "k xs c = Some res" by simp_all
    have "s = [x] @ xs" using Cons by simp
    moreover have "run E f (One a) [x] c c" using ok by simp
    ultimately show ?thesis using k by (rule m_soundI)
  qed
next
  case (Rep a lo hi g)
  then have "rep (atom_ok E f a) g lo hi s (\<lambda>s'. k s' c) = Some res" by (simp only: m.simps)
  from rep_sound[OF this] obtain w s' where w: "s = w @ s'" "within lo hi (length w)"
    "list_all (atom_ok E f a) w" "k s' c = Some res" by (rule rep_soundE)
  have "run E f (Rep a lo hi g) w c c" using w(2,3) by simp
  with w(1) show ?case using w(4) by (rule m_soundI)
next
  case (Seq r1 r2)
  from Seq.prems have "m E f r1 s c (\<lambda>s' c'. m E f r2 s' c' k) = Some res"
    by (simp only: m.simps)
  from Seq.IH(1)[OF this] obtain w1 s1 c1 where 1: "s = w1 @ s1" "run E f r1 w1 c c1"
    "m E f r2 s1 c1 k = Some res" by (rule m_soundE)
  from Seq.IH(2)[OF 1(3)] obtain w2 s2 c2 where 2: "s1 = w2 @ s2" "run E f r2 w2 c1 c2"
    "k s2 c2 = Some res" by (rule m_soundE)
  have "s = (w1 @ w2) @ s2" using 1(1) 2(1) by simp
  moreover have "run E f (Seq r1 r2) (w1 @ w2) c c2"
    unfolding run.simps using 1(2) 2(2)
    by (intro exI[of _ w1] exI[of _ w2] exI[of _ c1]) simp
  ultimately show ?case using 2(3) by (rule m_soundI)
next
  case (Alt r1 r2)
  from Alt.prems have
    "(case m E f r1 s c k of Some r \<Rightarrow> Some r | None \<Rightarrow> m E f r2 s c k) = Some res"
    by (simp only: m.simps)
  from case_Some_D[OF this] show ?case
  proof (elim disjE conjE)
    assume "m E f r1 s c k = Some res"
    from Alt.IH(1)[OF this] obtain w s' c' where "s = w @ s'" "run E f r1 w c c'"
      "k s' c' = Some res" by (rule m_soundE)
    moreover from this(2) have "run E f (Alt r1 r2) w c c'" by simp
    ultimately show ?thesis by (intro m_soundI[of s w s'])
  next
    assume "m E f r2 s c k = Some res"
    from Alt.IH(2)[OF this] obtain w s' c' where "s = w @ s'" "run E f r2 w c c'"
      "k s' c' = Some res" by (rule m_soundE)
    moreover from this(2) have "run E f (Alt r1 r2) w c c'" by simp
    ultimately show ?thesis by (intro m_soundI[of s w s'])
  qed
next
  case (Opt r)
  from Opt.prems have
    "(case m E f r s c k of Some x \<Rightarrow> Some x | None \<Rightarrow> k s c) = Some res"
    by (simp only: m.simps)
  from case_Some_D[OF this] show ?case
  proof (elim disjE conjE)
    assume "m E f r s c k = Some res"
    from Opt.IH[OF this] obtain w s' c' where "s = w @ s'" "run E f r w c c'"
      "k s' c' = Some res" by (rule m_soundE)
    moreover from this(2) have "run E f (Opt r) w c c'" by simp
    ultimately show ?thesis by (intro m_soundI[of s w s'])
  next
    assume "k s c = Some res"
    moreover have "s = [] @ s" by simp
    moreover have "run E f (Opt r) [] c c" by simp
    ultimately show ?thesis by (intro m_soundI[of s "[]" s])
  qed
next
  case (Group n r)
  from Group.prems have
    "m E f r s c (\<lambda>s' c'. k s' (c'(n \<mapsto> take (length s - length s') s))) = Some res"
    by (simp only: m.simps)
  from Group.IH[OF this] obtain w s' c1 where g: "s = w @ s'" "run E f r w c c1"
    "k s' (c1(n \<mapsto> take (length s - length s') s)) = Some res" by (rule m_soundE)
  have "take (length s - length s') s = w" using g(1) by simp
  with g(3) have k: "k s' (c1(n \<mapsto> w)) = Some res" by simp
  have "run E f (Group n r) w c (c1(n \<mapsto> w))"
    unfolding run.simps using g(2) by (intro exI[of _ c1]) simp
  with g(1) show ?case using k by (rule m_soundI)
qed


section \<open>What a match captures\<close>

lemma run_keeps: "run E f r w c c' \<Longrightarrow> c n \<noteq> None \<Longrightarrow> c' n \<noteq> None"
proof (induction r arbitrary: w c c')
  case (Seq r1 r2)
  from Seq.prems(1) obtain w1 w2 c1 where "run E f r1 w1 c c1" "run E f r2 w2 c1 c'" by auto
  then show ?case using Seq.IH Seq.prems(2) by blast
next
  case (Group k r)
  from Group.prems(1) obtain c1 where "run E f r w c c1" "c' = c1(k \<mapsto> w)" by auto
  then show ?case using Group.IH Group.prems(2) by auto
qed auto

lemma run_sets: "always_sets n r \<Longrightarrow> run E f r w c c' \<Longrightarrow> c' n \<noteq> None"
proof (induction r arbitrary: w c c')
  case (Seq r1 r2)
  from Seq.prems(2) obtain w1 w2 c1 where r: "run E f r1 w1 c c1" "run E f r2 w2 c1 c'" by auto
  from Seq.prems(1) consider "always_sets n r1" | "always_sets n r2" by auto
  then show ?case
  proof cases
    case 1
    then have "c1 n \<noteq> None" using r(1) by (rule Seq.IH(1))
    with r(2) show ?thesis by (rule run_keeps)
  next
    case 2
    then show ?thesis using r(2) by (rule Seq.IH(2))
  qed
next
  case (Alt r1 r2)
  then show ?case by auto
next
  case (Group k r)
  from Group.prems(2) obtain c1 where r: "run E f r w c c1" "c' = c1(k \<mapsto> w)" by auto
  show ?case
  proof (cases "k = n")
    case True
    then show ?thesis using r(2) by simp
  next
    case False
    with Group.prems(1) have "always_sets n r" by simp
    then have "c1 n \<noteq> None" using r(1) by (rule Group.IH)
    then show ?thesis using r(2) by simp
  qed
qed simp_all

lemma run_bodies:
  "run E f r w c c' \<Longrightarrow> c' n = Some g \<Longrightarrow>
     c n = Some g \<or> (\<exists>b\<in>set (bodies n r). \<exists>c0 c1. run E f b g c0 c1)"
proof (induction r arbitrary: w c c')
  case (Seq r1 r2)
  from Seq.prems(1) obtain w1 w2 c1 where r: "run E f r1 w1 c c1" "run E f r2 w2 c1 c'" by auto
  from Seq.IH(2)[OF r(2) Seq.prems(2)]
  consider "c1 n = Some g" | "\<exists>b\<in>set (bodies n r2). \<exists>c0 c1. run E f b g c0 c1" by blast
  then show ?case
  proof cases
    case 1
    from Seq.IH(1)[OF r(1) 1] show ?thesis by auto
  next
    case 2
    then show ?thesis by auto
  qed
next
  case (Alt r1 r2)
  from Alt.prems(1) consider "run E f r1 w c c'" | "run E f r2 w c c'" by auto
  then show ?case
  proof cases
    case 1
    from Alt.IH(1)[OF 1 Alt.prems(2)] show ?thesis by auto
  next
    case 2
    from Alt.IH(2)[OF 2 Alt.prems(2)] show ?thesis by auto
  qed
next
  case (Opt r)
  from Opt.prems(1) consider "run E f r w c c'" | "c' = c" by auto
  then show ?case
  proof cases
    case 1
    from Opt.IH[OF 1 Opt.prems(2)] show ?thesis by auto
  next
    case 2
    then show ?thesis using Opt.prems(2) by simp
  qed
next
  case (Group k r)
  from Group.prems(1) obtain c1 where r: "run E f r w c c1" "c' = c1(k \<mapsto> w)" by auto
  show ?case
  proof (cases "k = n")
    case True
    with r(2) Group.prems(2) have "g = w" by simp
    with r(1) have "run E f r g c c1" by simp
    then show ?thesis using True by auto
  next
    case False
    with r(2) Group.prems(2) have "c1 n = Some g" by simp
    from Group.IH[OF r(1) this] show ?thesis using False by auto
  qed
qed simp_all

lemma run_within:
  "run E f r w c c' \<Longrightarrow> c' n = Some g \<Longrightarrow> c n = Some g \<or> set g \<subseteq> set w"
proof (induction r arbitrary: w c c')
  case (Seq r1 r2)
  from Seq.prems(1) obtain w1 w2 c1 where r: "w = w1 @ w2" "run E f r1 w1 c c1" "run E f r2 w2 c1 c'"
    by auto
  from Seq.IH(2)[OF r(3) Seq.prems(2)] consider "c1 n = Some g" | "set g \<subseteq> set w2" by blast
  then show ?case
  proof cases
    case 1
    from Seq.IH(1)[OF r(2) 1] show ?thesis using r(1) by auto
  next
    case 2
    then show ?thesis using r(1) by auto
  qed
next
  case (Alt r1 r2)
  from Alt.prems(1) consider "run E f r1 w c c'" | "run E f r2 w c c'" by auto
  then show ?case
  proof cases
    case 1
    from Alt.IH(1)[OF 1 Alt.prems(2)] show ?thesis .
  next
    case 2
    from Alt.IH(2)[OF 2 Alt.prems(2)] show ?thesis .
  qed
next
  case (Opt r)
  from Opt.prems(1) consider "run E f r w c c'" | "c' = c" by auto
  then show ?case
  proof cases
    case 1
    from Opt.IH[OF 1 Opt.prems(2)] show ?thesis .
  next
    case 2
    then show ?thesis using Opt.prems(2) by simp
  qed
next
  case (Group k r)
  from Group.prems(1) obtain c1 where r: "run E f r w c c1" "c' = c1(k \<mapsto> w)" by auto
  show ?case
  proof (cases "k = n")
    case True
    with r(2) Group.prems(2) show ?thesis by simp
  next
    case False
    with r(2) Group.prems(2) have "c1 n = Some g" by simp
    from Group.IH[OF r(1) this] show ?thesis .
  qed
qed simp_all

lemma match_at_sound:
  assumes "match_at E f r i s = Some mo"
  shows "\<exists>w c'. run E f r w (\<lambda>n. None) c' \<and> set w \<subseteq> set s
           \<and> mo = \<lparr>mre = r, mstart = i, mtext = w, mgroup = c'\<rparr>"
proof -
  from assms have "m E f r s (\<lambda>n. None)
      (\<lambda>s' c. Some \<lparr>mre = r, mstart = i, mtext = take (length s - length s') s, mgroup = c\<rparr>) = Some mo"
    by (simp only: match_at_def)
  from m_sound[OF this] obtain w s' c' where w: "s = w @ s'" "run E f r w (\<lambda>n. None) c'"
    "Some \<lparr>mre = r, mstart = i, mtext = take (length s - length s') s, mgroup = c'\<rparr> = Some mo"
    by (rule m_soundE)
  have "take (length s - length s') s = w" using w(1) by simp
  with w(3) have "mo = \<lparr>mre = r, mstart = i, mtext = w, mgroup = c'\<rparr>" by simp
  moreover have "set w \<subseteq> set s" using w(1) by simp
  ultimately show ?thesis using w(2) by (intro exI[of _ w] exI[of _ c']) simp
qed

lemma search_from_sound:
  "search_from E f r i s = Some mo \<Longrightarrow>
     \<exists>w c'. run E f r w (\<lambda>n. None) c' \<and> set w \<subseteq> set s \<and> mre mo = r \<and> mtext mo = w \<and> mgroup mo = c'"
proof (induction s arbitrary: i)
  case Nil
  then have "match_at E f r i [] = Some mo" by simp
  from match_at_sound[OF this] obtain w c' where "run E f r w (\<lambda>n. None) c'" "set w \<subseteq> set []"
    "mo = \<lparr>mre = r, mstart = i, mtext = w, mgroup = c'\<rparr>" by (elim exE conjE)
  then show ?case by (intro exI[of _ w] exI[of _ c']) simp
next
  case (Cons x xs)
  from Cons.prems have
    "(case match_at E f r i (x # xs) of Some mo \<Rightarrow> Some mo | None \<Rightarrow> search_from E f r (Suc i) xs) = Some mo"
    by (simp only: search_from.simps)
  from case_Some_D[OF this] show ?case
  proof (elim disjE conjE)
    assume "match_at E f r i (x # xs) = Some mo"
    from match_at_sound[OF this] obtain w c' where "run E f r w (\<lambda>n. None) c'" "set w \<subseteq> set (x # xs)"
      "mo = \<lparr>mre = r, mstart = i, mtext = w, mgroup = c'\<rparr>" by (elim exE conjE)
    then show ?thesis by (intro exI[of _ w] exI[of _ c']) simp
  next
    assume "search_from E f r (Suc i) xs = Some mo"
    from Cons.IH[OF this] obtain w c' where "run E f r w (\<lambda>n. None) c'" "set w \<subseteq> set xs"
      "mre mo = r" "mtext mo = w" "mgroup mo = c'" by (elim exE conjE)
    then show ?thesis by (intro exI[of _ w] exI[of _ c']) auto
  qed
qed

lemma search_sound:
  assumes "search E f r s = Some mo"
  obtains w c' where "run E f r w (\<lambda>n. None) c'" "set w \<subseteq> set s" "mre mo = r" "mtext mo = w"
    "mgroup mo = c'"
proof -
  from assms have "search_from E f r 0 s = Some mo" by (simp only: search_def)
  from search_from_sound[OF this] obtain w c' where "run E f r w (\<lambda>n. None) c'" "set w \<subseteq> set s"
    "mre mo = r" "mtext mo = w" "mgroup mo = c'" by (elim exE conjE)
  then show ?thesis by (rule that)
qed

lemma search_mre: "search E f r s = Some mo \<Longrightarrow> mre mo = r"
  by (erule search_sound)

lemma search_sets:
  assumes "always_sets n r" and "search E f r s = Some mo"
  shows "mgroup mo n \<noteq> None"
proof -
  from assms(2) obtain w c' where "run E f r w (\<lambda>n. None) c'" "mgroup mo = c'"
    by (rule search_sound)
  with run_sets[OF assms(1), of E f w "\<lambda>n. None" c'] show ?thesis by simp
qed

lemma search_group:
  assumes "search E f r s = Some mo" and "mgroup mo n = Some g"
  shows "(\<exists>b\<in>set (bodies n r). \<exists>c0 c1. run E f b g c0 c1) \<and> set g \<subseteq> set s"
proof -
  from assms(1) obtain w c' where w: "run E f r w (\<lambda>n. None) c'" "set w \<subseteq> set s" "mgroup mo = c'"
    by (rule search_sound)
  from assms(2) w(3) have g: "c' n = Some g" by simp
  from run_bodies[OF w(1) g] have 1: "\<exists>b\<in>set (bodies n r). \<exists>c0 c1. run E f b g c0 c1" by simp
  from run_within[OF w(1) g] have "set g \<subseteq> set w" by simp
  with w(2) have "set g \<subseteq> set s" by simp
  with 1 show ?thesis by simp
qed


section \<open>The parsers return, and what \<open>last4\<close> holds\<close>

lemma find_first_regex_Inr:
  "list_all (always_sets 1) ps \<Longrightarrow> \<exists>v. find_first_regex E text ps = Inr v"
proof (induction ps)
  case Nil
  then show ?case by simp
next
  case (Cons p ps)
  then have p: "always_sets 1 p" and ps: "list_all (always_sets 1) ps" by simp_all
  show ?case
  proof (cases "search E ICS p text")
    case None
    then show ?thesis using Cons.IH[OF ps] by simp
  next
    case (Some mo)
    from search_sets[OF p Some] obtain g where "mgroup mo 1 = Some g" by auto
    then show ?thesis using Some by simp
  qed
qed

lemma find_first_regex_Some:
  "find_first_regex E text ps = Inr (Some (p, t)) \<Longrightarrow> list_all (\<lambda>p. 0 < ngroups p) ps \<Longrightarrow>
     \<exists>g. t = strip E g \<and> set g \<subseteq> set text
       \<and> (\<exists>q\<in>set ps. \<exists>b\<in>set (bodies 1 q). \<exists>c0 c1. run E ICS b g c0 c1)"
proof (induction ps)
  case Nil
  then show ?case by simp
next
  case (Cons q ps)
  from Cons.prems(2) have q: "0 < ngroups q" and ps: "list_all (\<lambda>p. 0 < ngroups p) ps" by simp_all
  show ?case
  proof (cases "search E ICS q text")
    case None
    with Cons.prems(1) have "find_first_regex E text ps = Inr (Some (p, t))" by simp
    from Cons.IH[OF this ps] obtain g where "t = strip E g" "set g \<subseteq> set text"
      "\<exists>q\<in>set ps. \<exists>b\<in>set (bodies 1 q). \<exists>c0 c1. run E ICS b g c0 c1" by (elim exE conjE)
    then show ?thesis by (intro exI[of _ g]) simp
  next
    case (Some mo)
    have mre: "mre mo = q" using Some by (rule search_mre)
    show ?thesis
    proof (cases "mgroup mo 1")
      case None
      with Some mre q Cons.prems(1) show ?thesis by simp
    next
      case g: (Some g)
      with Some mre q Cons.prems(1) have t: "t = strip E g" by simp
      from search_group[OF Some g] have "\<exists>b\<in>set (bodies 1 q). \<exists>c0 c1. run E ICS b g c0 c1"
        "set g \<subseteq> set text" by simp_all
      with t show ?thesis by (intro exI[of _ g]) simp
    qed
  qed
qed

lemma fill_Inr:
  assumes "list_all (always_sets 1) vs" "list_all (always_sets 1) sps"
    "list_all (always_sets 1) dds" "list_all (always_sets 1) ads"
  shows "\<exists>v sp dd ad. find_first_regex E text vs = Inr v \<and> find_first_regex E text sps = Inr sp
      \<and> find_first_regex E text dds = Inr dd \<and> find_first_regex E text ads = Inr ad
      \<and> fill E P name l4 text vs sps dds ads =
          Inr \<lparr>issuer = name, last4 = l4, card_variant = second v,
               statement_period = map_option (normalize_spaces E) (second sp),
               due_date = (case second dd of None \<Rightarrow> None | Some d \<Rightarrow> try_parse_date P d),
               amount_due = second ad\<rparr>"
proof -
  from find_first_regex_Inr[OF assms(1)] obtain v where v: "find_first_regex E text vs = Inr v" by (rule exE)
  from find_first_regex_Inr[OF assms(2)] obtain sp where sp: "find_first_regex E text sps = Inr sp" by (rule exE)
  from find_first_regex_Inr[OF assms(3)] obtain dd where dd: "find_first_regex E text dds = Inr dd" by (rule exE)
  from find_first_regex_Inr[OF assms(4)] obtain ad where ad: "find_first_regex E text ads = Inr ad" by (rule exE)
  have "fill E P name l4 text vs sps dds ads =
          Inr \<lparr>issuer = name, last4 = l4, card_variant = second v,
               statement_period = map_option (normalize_spaces E) (second sp),
               due_date = (case second dd of None \<Rightarrow> None | Some d \<Rightarrow> try_parse_date P d),
               amount_due = second ad\<rparr>"
    by (simp add: fill_def v sp dd ad)
  with v sp dd ad show ?thesis by (intro exI[of _ v] exI[of _ sp] exI[of _ dd] exI[of _ ad]) simp
qed

lemma fill_last4:
  assumes "list_all (always_sets 1) vs" "list_all (always_sets 1) sps"
    "list_all (always_sets 1) dds" "list_all (always_sets 1) ads"
  shows "returns (fill E P name l4 text vs sps dds ads)
     \<and> field_of last4 (fill E P name l4 text vs sps dds ads) = l4
     \<and> field_of (\<lambda>r. Some (issuer r)) (fill E P name l4 text vs sps dds ads) = Some name"
proof -
  from fill_Inr[OF assms, of E "text" P name l4] obtain r where
    "fill E P name l4 text vs sps dds ads = Inr r" "last4 r = l4" "issuer r = name"
    by (elim exE conjE) simp
  then show ?thesis by (simp add: returns_def field_of_def)
qed

lemmas shape_defs = period_pat_def date_pat_def amount_pat_def variant_pat_def issuer_card_pat_def
  chase_variant_first_def generic_variant_first_def generic_period_first_def generic_date_def
  generic_amount_def

lemma always_sets_shapes:
  "always_sets 1 (period_pat l)" "always_sets 1 (date_pat l)" "always_sets 1 (amount_pat l)"
  "always_sets 1 (variant_pat ws)" "always_sets 1 (issuer_card_pat l)"
  "always_sets 1 chase_variant_first" "always_sets 1 generic_variant_first"
  "always_sets 1 generic_period_first" "always_sets 1 generic_date" "always_sets 1 generic_amount"
  by (simp_all add: shape_defs)

lemmas last4_defs = four_digits_def amex_last4_first_def ending_in_lazy_def ending_in_space_def
  masked_number_def ending_in_greedy_def times_def star_def star_lazy_def plus_def

lemma bodies_last4:
  "bodies 1 amex_last4_first = [Rep (Category Digit) 4 (Some 4) True]"
  "bodies 1 (ending_in_lazy pre) = [Rep (Category Digit) 4 (Some 4) True]"
  "bodies 1 ending_in_space = [Rep (Category Digit) 4 (Some 4) True]"
  "bodies 1 (masked_number l) = [Rep (Category Digit) 4 (Some 4) True]"
  "bodies 1 ending_in_greedy = [Rep (Category Digit) 4 (Some 4) True]"
  "bodies 1 (seqs [Lit (py ''Card''), plus (Category Space), Lit (py ''ending''),
                    star_lazy colon_space, four_digits]) = [Rep (Category Digit) 4 (Some 4) True]"
  by (simp_all add: last4_defs)

lemma ngroups_last4:
  "0 < ngroups (ending_in_lazy pre)" "0 < ngroups (masked_number l)"
  "0 < ngroups (seqs [Lit (py ''Card''), plus (Category Space), Lit (py ''ending''),
                    star_lazy colon_space, four_digits])"
  by (simp_all add: last4_defs)

lemma always_sets_last4:
  "always_sets 1 (ending_in_lazy pre)" "always_sets 1 (masked_number l)"
  "always_sets 1 (seqs [Lit (py ''Card''), plus (Category Space), Lit (py ''ending''),
                    star_lazy colon_space, four_digits])"
  by (simp_all add: last4_defs)

lemma run_four_digits: "run E f (Rep (Category Digit) 4 (Some 4) True) g c0 c1 \<Longrightarrow> digits4 E g"
  by (simp add: digits4_def within_def list_all_iff)

lemma search_digits:
  assumes "search E f r s = Some mo" and "mgroup mo 1 = Some g"
    and "bodies 1 r = [Rep (Category Digit) 4 (Some 4) True]"
  shows "digits4 E g \<and> set g \<subseteq> set s"
proof -
  from search_group[OF assms(1,2)] have
    b: "\<exists>b\<in>set (bodies 1 r). \<exists>c0 c1. run E f b g c0 c1" and s: "set g \<subseteq> set s" by simp_all
  from b obtain c0 c1 where "run E f (Rep (Category Digit) 4 (Some 4) True) g c0 c1"
    unfolding assms(3) by auto
  then have "digits4 E g" by (rule run_four_digits)
  with s show ?thesis by simp
qed

lemma or_else_digits:
  assumes "group1_or_none (or_else (search E f r1 s) (search E f r2 s)) = Some g"
    and "bodies 1 r1 = [Rep (Category Digit) 4 (Some 4) True]"
    and "bodies 1 r2 = [Rep (Category Digit) 4 (Some 4) True]"
  shows "digits4 E g \<and> set g \<subseteq> set s"
proof (cases "search E f r1 s")
  case None
  with assms(1) obtain mo where mo: "search E f r2 s = Some mo" "mgroup mo 1 = Some g"
    by (cases "search E f r2 s") (simp_all add: group1_or_none_def or_else_def)
  from search_digits[OF mo assms(3)] show ?thesis .
next
  case (Some mo)
  with assms(1) have "mgroup mo 1 = Some g" by (simp add: group1_or_none_def or_else_def)
  from search_digits[OF Some this assms(2)] show ?thesis .
qed

lemma amex_last4_digits:
  assumes "(case (if search E IC amex_last4_first s = None then search E IC (ending_in_lazy []) s
                  else search E IC amex_last4_first s) of
              Some mo \<Rightarrow> if 0 < ngroups (mre mo) then mgroup mo 1 else None
            | None \<Rightarrow> None) = Some g"
  shows "digits4 E g \<and> set g \<subseteq> set s"
proof (cases "search E IC amex_last4_first s")
  case None
  with assms obtain mo where mo: "search E IC (ending_in_lazy []) s = Some mo" "mgroup mo 1 = Some g"
    by (cases "search E IC (ending_in_lazy []) s") (simp_all split: if_splits)
  from search_digits[OF mo bodies_last4(2)] show ?thesis .
next
  case (Some mo)
  with assms have "mgroup mo 1 = Some g" by (simp split: if_splits)
  from search_digits[OF Some this bodies_last4(1)] show ?thesis .
qed

lemma strip_digits:
  assumes "\<forall>c. is_decimal E c \<longrightarrow> \<not> is_space E c" and "digits4 E g"
  shows "strip E g = g"
proof -
  from assms(2) obtain a b c d where g: "g = [a, b, c, d]"
    by (cases g; simp add: digits4_def; rename_tac a g1; case_tac g1; simp;
        rename_tac b g2; case_tac g2; simp; rename_tac c g3; case_tac g3; simp)
  with assms(2) have "is_decimal E a" "is_decimal E d" by (simp_all add: digits4_def)
  with assms(1) have "\<not> is_space E a" "\<not> is_space E d" by simp_all
  then show ?thesis unfolding g by (simp add: strip_def)
qed

lemma always_sets_summary:
  "always_sets 1 (seqs [Lit (py ''Statement Summary''), star (Category Space), Lit (py ''Period''),
                  star colon_space, Group 1 (plus period_chars)])"
  "always_sets 1 (seqs [Lit (py ''Card Type''), star colon_space, Group 1 (plus letters_digits_space)])"
  by simp_all

lemma fill_returns_last4:
  assumes "list_all (always_sets 1) vs" "list_all (always_sets 1) sps"
    "list_all (always_sets 1) dds" "list_all (always_sets 1) ads"
  shows "returns (fill E P name l4 text vs sps dds ads)
     \<and> field_of last4 (fill E P name l4 text vs sps dds ads) = l4"
  using fill_last4[OF assms] by simp

lemma parse_amex_last4:
  "returns (parse_amex E P text) \<and>
   field_of last4 (parse_amex E P text) =
     (case (if search E IC amex_last4_first text = None then search E IC (ending_in_lazy []) text
            else search E IC amex_last4_first text) of
        Some mo \<Rightarrow> if 0 < ngroups (mre mo) then mgroup mo 1 else None
      | None \<Rightarrow> None)"
  unfolding parse_amex_def Let_def
  by (rule fill_returns_last4) (simp_all del: One_nat_def add: always_sets_shapes always_sets_summary)

lemma parse_chase_last4:
  "returns (parse_chase E P text) \<and>
   field_of last4 (parse_chase E P text) =
     group1_or_none (or_else (search E IC (ending_in_lazy ''Account '') text)
                             (search E IC (ending_in_lazy ''Card '') text))"
  unfolding parse_chase_def Let_def
  by (rule fill_returns_last4) (simp_all del: One_nat_def add: always_sets_shapes)

lemma parse_citi_last4:
  "returns (parse_citi E P text) \<and>
   field_of last4 (parse_citi E P text) =
     group1_or_none (or_else (search E IC (ending_in_lazy ''Card '') text)
                             (search E IC ending_in_space text))"
  unfolding parse_citi_def Let_def
  by (rule fill_returns_last4) (simp_all del: One_nat_def add: always_sets_shapes)

lemma parse_bofa_last4:
  "returns (parse_bofa E P text) \<and>
   field_of last4 (parse_bofa E P text) =
     group1_or_none (or_else (search E IC (masked_number ''Account Number'') text)
                             (search E IC ending_in_space text))"
  unfolding parse_bofa_def Let_def
  by (rule fill_returns_last4) (simp_all del: One_nat_def add: always_sets_shapes)

lemma parse_hsbc_last4:
  "returns (parse_hsbc E P text) \<and>
   field_of last4 (parse_hsbc E P text) =
     group1_or_none (or_else (search E IC (masked_number ''Card number'') text)
                             (search E IC ending_in_greedy text))"
  unfolding parse_hsbc_def Let_def
  by (rule fill_returns_last4) (simp_all del: One_nat_def add: always_sets_shapes)

lemma parse_generic_last4:
  "returns (parse_generic E P text) \<and>
   field_of last4 (parse_generic E P text) =
     field_of second (find_first_regex E text
             [ending_in_lazy [], masked_number ''Account Number'',
              seqs [Lit (py ''Card''), plus (Category Space), Lit (py ''ending''),
                    star_lazy colon_space, four_digits]])"
proof -
  have a: "list_all (always_sets 1) [ending_in_lazy [], masked_number ''Account Number'',
              seqs [Lit (py ''Card''), plus (Category Space), Lit (py ''ending''),
                    star_lazy colon_space, four_digits]]"
    by (simp del: One_nat_def add: always_sets_last4 four_digits_def)
  from find_first_regex_Inr[OF a] obtain l4 where l4: "find_first_regex E text
             [ending_in_lazy [], masked_number ''Account Number'',
              seqs [Lit (py ''Card''), plus (Category Space), Lit (py ''ending''),
                    star_lazy colon_space, four_digits]] = Inr l4"
    by (rule exE)
  show ?thesis
    unfolding parse_generic_def l4 sum.case field_of_def[of second]
    by (rule fill_returns_last4) (simp_all del: One_nat_def add: always_sets_shapes always_sets_summary)
qed


section \<open>The shape of \<open>last4\<close>\<close>

lemma generic_last4_digits:
  assumes sp: "\<forall>c. is_decimal E c \<longrightarrow> \<not> is_space E c"
    and "field_of second (find_first_regex E text
             [ending_in_lazy [], masked_number ''Account Number'',
              seqs [Lit (py ''Card''), plus (Category Space), Lit (py ''ending''),
                    star_lazy colon_space, four_digits]]) = Some d"
  shows "digits4 E d \<and> set d \<subseteq> set text"
proof -
  let ?ps = "[ending_in_lazy [], masked_number ''Account Number'',
              seqs [Lit (py ''Card''), plus (Category Space), Lit (py ''ending''),
                    star_lazy colon_space, four_digits]]"
  from assms(2) obtain p where p: "find_first_regex E text ?ps = Inr (Some (p, d))"
    by (cases "find_first_regex E text ?ps")
       (auto simp: field_of_def second_def split: option.splits)
  have n: "list_all (\<lambda>p. 0 < ngroups p) ?ps"
    by (simp del: One_nat_def add: ngroups_last4 four_digits_def)
  from find_first_regex_Some[OF p n] obtain g where g: "d = strip E g" "set g \<subseteq> set text"
    "\<exists>q\<in>set ?ps. \<exists>b\<in>set (bodies 1 q). \<exists>c0 c1. run E ICS b g c0 c1"
    by (elim exE conjE)
  from g(3) obtain c0 c1 where "run E ICS (Rep (Category Digit) 4 (Some 4) True) g c0 c1"
    by (auto simp del: One_nat_def simp add: bodies_last4 four_digits_def times_def star_lazy_def plus_def)
  then have dg: "digits4 E g" by (rule run_four_digits)
  with sp have "strip E g = g" by (rule strip_digits)
  with g(1,2) dg show ?thesis by simp
qed

text \<open>
  C9, as amended. In the record of each of the six extractors, a \<open>last4\<close> that is
  present consists of exactly four characters of the text, each a decimal digit in the
  sense of the class \<open>\d\<close>; they are ASCII digits whenever every decimal digit of the
  text is an ASCII character. (No character is both a decimal digit and whitespace.)
\<close>

theorem last4_four_digits:
  assumes sp: "\<forall>c. is_decimal E c \<longrightarrow> \<not> is_space E c"
    and parser: "parser = parse_amex \<or> parser = parse_chase \<or> parser = parse_citi
              \<or> parser = parse_bofa \<or> parser = parse_hsbc \<or> parser = parse_generic"
    and r: "parser E P text = Inr r" and d: "last4 r = Some d"
  shows "length d = 4 \<and> (\<forall>c\<in>set d. is_decimal E c) \<and> set d \<subseteq> set text
     \<and> ((\<forall>c\<in>set text. is_decimal E c \<longrightarrow> c < 128) \<longrightarrow> (\<forall>c\<in>set d. 48 \<le> c \<and> c \<le> 57))"
proof -
  have f: "field_of last4 (parser E P text) = Some d" by (simp add: r d field_of_def)
  have main: "digits4 E d \<and> set d \<subseteq> set text"
    using parser
  proof (elim disjE)
    assume "parser = parse_amex"
    with f show ?thesis by (simp only: parse_amex_last4 amex_last4_digits)
  next
    assume "parser = parse_chase"
    with f have "group1_or_none (or_else (search E IC (ending_in_lazy ''Account '') text)
                             (search E IC (ending_in_lazy ''Card '') text)) = Some d"
      by (simp only: parse_chase_last4)
    then show ?thesis by (rule or_else_digits) (rule bodies_last4)+
  next
    assume "parser = parse_citi"
    with f have "group1_or_none (or_else (search E IC (ending_in_lazy ''Card '') text)
                             (search E IC ending_in_space text)) = Some d"
      by (simp only: parse_citi_last4)
    then show ?thesis by (rule or_else_digits) (rule bodies_last4)+
  next
    assume "parser = parse_bofa"
    with f have "group1_or_none (or_else (search E IC (masked_number ''Account Number'') text)
                             (search E IC ending_in_space text)) = Some d"
      by (simp only: parse_bofa_last4)
    then show ?thesis by (rule or_else_digits) (rule bodies_last4)+
  next
    assume "parser = parse_hsbc"
    with f have "group1_or_none (or_else (search E IC (masked_number ''Card number'') text)
                             (search E IC ending_in_greedy text)) = Some d"
      by (simp only: parse_hsbc_last4)
    then show ?thesis by (rule or_else_digits) (rule bodies_last4)+
  next
    assume "parser = parse_generic"
    with f have "field_of second (find_first_regex E text
             [ending_in_lazy [], masked_number ''Account Number'',
              seqs [Lit (py ''Card''), plus (Category Space), Lit (py ''ending''),
                    star_lazy colon_space, four_digits]]) = Some d"
      by (simp only: parse_generic_last4)
    with sp show ?thesis by (rule generic_last4_digits)
  qed
  then have 1: "length d = 4" and 2: "\<forall>c\<in>set d. is_decimal E c" and 3: "set d \<subseteq> set text"
    by (simp_all add: digits4_def list_all_iff)
  have 4: "(\<forall>c\<in>set text. is_decimal E c \<longrightarrow> c < 128) \<longrightarrow> (\<forall>c\<in>set d. 48 \<le> c \<and> c \<le> 57)"
  proof (intro impI ballI)
    fix c assume a: "\<forall>c\<in>set text. is_decimal E c \<longrightarrow> c < 128" and c: "c \<in> set d"
    from c 2 3 have "is_decimal E c" "c \<in> set text" by auto
    with a have "c < 128" by simp
    with \<open>is_decimal E c\<close> show "48 \<le> c \<and> c \<le> 57" by (simp add: is_decimal_def)
  qed
  show ?thesis by (intro conjI 1 2 3 4)
qed

lemmas eval_defs = re_defs pat_defs py_def chr_eq_def ascii_lower_def is_space_def is_decimal_def
  is_alnum_def strip_def

lemma arabic_search:
  "find_first_regex ucd_sample (py ''ending in '' @ [1633, 1634, 1635, 1636])
     [ending_in_lazy [], masked_number ''Account Number'',
      seqs [Lit (py ''Card''), plus (Category Space), Lit (py ''ending''),
            star_lazy colon_space, four_digits]]
   = Inr (Some (ending_in_lazy [], [1633, 1634, 1635, 1636]))"
  by (simp add: eval_defs ucd_sample_def)

text \<open>
  C9, counterexample. The text \<open>ending in\<close> followed by the four Arabic-Indic digits
  U+0661 to U+0664 gives, in the generic extractor, a \<open>last4\<close> of those four
  characters: present, and not ASCII digits.
\<close>

theorem last4_arabic_digits:
  "returns (parse_generic ucd_sample never_parses (py ''ending in '' @ [1633, 1634, 1635, 1636]))
   \<and> field_of last4 (parse_generic ucd_sample never_parses (py ''ending in '' @ [1633, 1634, 1635, 1636]))
       = Some [1633, 1634, 1635, 1636]
   \<and> \<not> list_all (\<lambda>c. 48 \<le> c \<and> c \<le> 57) [1633, 1634, 1635, 1636 :: nat]"
proof -
  have "field_of last4 (parse_generic ucd_sample never_parses (py ''ending in '' @ [1633, 1634, 1635, 1636]))
       = Some [1633, 1634, 1635, 1636]"
    unfolding parse_generic_last4[THEN conjunct2] arabic_search
    by (simp add: field_of_def second_def)
  then show ?thesis by (simp add: parse_generic_last4)
qed

lemma ucd_sample_digits_not_space: "\<forall>c. is_decimal ucd_sample c \<longrightarrow> \<not> is_space ucd_sample c"
  by (auto simp: is_decimal_def is_space_def ucd_sample_def)

theorem last4_four_digits_witness:
  "field_of last4 (parse_generic ucd_sample never_parses (py ''ending in '' @ [1633, 1634, 1635, 1636]))
       = Some [1633, 1634, 1635, 1636]
   \<and> length [1633, 1634, 1635, 1636 :: nat] = 4
   \<and> list_all (is_decimal ucd_sample) [1633, 1634, 1635, 1636]
   \<and> set [1633, 1634, 1635, 1636] \<subseteq> set (py ''ending in '' @ [1633, 1634, 1635, 1636])"
proof -
  let ?t = "py ''ending in '' @ [1633, 1634, 1635, 1636]"
  have f: "field_of last4 (parse_generic ucd_sample never_parses ?t) = Some [1633, 1634, 1635, 1636]"
    unfolding parse_generic_last4[THEN conjunct2] arabic_search
    by (simp add: field_of_def second_def)
  have "returns (parse_generic ucd_sample never_parses ?t)" by (simp add: parse_generic_last4)
  then obtain r where r: "parse_generic ucd_sample never_parses ?t = Inr r"
    by (cases "parse_generic ucd_sample never_parses ?t") (simp_all add: returns_def)
  with f have d: "last4 r = Some [1633, 1634, 1635, 1636]" by (simp add: field_of_def)
  have p: "parse_generic = parse_amex \<or> parse_generic = parse_chase \<or> parse_generic = parse_citi
      \<or> parse_generic = parse_bofa \<or> parse_generic = parse_hsbc \<or> parse_generic = parse_generic"
    by simp
  note t = last4_four_digits[OF ucd_sample_digits_not_space p r d]
  from t have 1: "length [1633, 1634, 1635, 1636 :: nat] = 4" by (rule conjunct1)
  from t have 2: "\<forall>c\<in>set [1633, 1634, 1635, 1636]. is_decimal ucd_sample c"
    by (rule conjunct2[THEN conjunct1])
  from t have 3: "set [1633, 1634, 1635, 1636] \<subseteq> set ?t"
    by (rule conjunct2[THEN conjunct2, THEN conjunct1])
  from 2 have da: "list_all (is_decimal ucd_sample) [1633, 1634, 1635, 1636]"
    by (simp only: list_all_iff)
  show ?thesis by (intro conjI f 1 da 3)
qed


section \<open>Searching faster: the first character\<close>

lemma match_lit_first: "\<not> chr_eq E f p c \<Longrightarrow> match_lit E f (p # ps) (c # s) = None"
  by simp

lemma first_ok_None: "\<not> first_ok E f r c \<Longrightarrow> m E f r (c # s) caps k = None"
proof (induction r arbitrary: caps k)
  case (Lit ps)
  then show ?case by (cases ps) simp_all
next
  case (Rep a lo hi g)
  then show ?case by simp
next
  case (Seq r1 r2)
  then have "\<not> first_ok E f r1 c" by simp
  then have "m E f r1 (c # s) caps (\<lambda>s' c'. m E f r2 s' c' k) = None" by (rule Seq.IH(1))
  then show ?case by simp
next
  case (Alt r1 r2)
  then have "m E f r1 (c # s) caps k = None" "m E f r2 (c # s) caps k = None"
    using Alt.IH by simp_all
  then show ?case by simp
next
  case (Group n r)
  then have "\<not> first_ok E f r c" by simp
  then have "m E f r (c # s) caps (\<lambda>s' c'. k s' (c'(n \<mapsto> take (length (c # s) - length s') (c # s)))) = None"
    by (rule Group.IH)
  then show ?case by simp
qed simp_all

lemma search_from_step:
  "search_from E f r i (c # cs) =
     (if first_ok E f r c
      then (case match_at E f r i (c # cs) of Some mo \<Rightarrow> Some mo
            | None \<Rightarrow> search_from E f r (Suc i) cs)
      else search_from E f r (Suc i) cs)"
  by (simp add: match_at_def first_ok_None)

lemma contains_step:
  "contains (k # ks) (c # cs) = (if k = c then starts_with ks cs \<or> contains (k # ks) cs
                                 else contains (k # ks) cs)"
  by simp


section \<open>The records of the American Express and the generic extractor\<close>

lemma fill_eq:
  assumes "list_all (always_sets 1) vs" "list_all (always_sets 1) sps"
    "list_all (always_sets 1) dds" "list_all (always_sets 1) ads"
  shows "fill E P name l4 text vs sps dds ads =
     Inr \<lparr>issuer = name, last4 = l4,
          card_variant = field_of second (find_first_regex E text vs),
          statement_period = map_option (normalize_spaces E) (field_of second (find_first_regex E text sps)),
          due_date = (case field_of second (find_first_regex E text dds) of
                        None \<Rightarrow> None | Some d \<Rightarrow> try_parse_date P d),
          amount_due = field_of second (find_first_regex E text ads)\<rparr>"
proof -
  from fill_Inr[OF assms, of E "text" P name l4] obtain v sp dd ad where
    "find_first_regex E text vs = Inr v" "find_first_regex E text sps = Inr sp"
    "find_first_regex E text dds = Inr dd" "find_first_regex E text ads = Inr ad"
    "fill E P name l4 text vs sps dds ads =
          Inr \<lparr>issuer = name, last4 = l4, card_variant = second v,
               statement_period = map_option (normalize_spaces E) (second sp),
               due_date = (case second dd of None \<Rightarrow> None | Some d \<Rightarrow> try_parse_date P d),
               amount_due = second ad\<rparr>"
    by (elim exE conjE)
  then show ?thesis by (simp add: field_of_def)
qed

lemma parse_amex_eq:
  "parse_amex E P text =
     Inr \<lparr>issuer = py ''American Express'',
          last4 = (case (if search E IC amex_last4_first text = None
                         then search E IC (ending_in_lazy []) text
                         else search E IC amex_last4_first text) of
                     Some mo \<Rightarrow> if 0 < ngroups (mre mo) then mgroup mo 1 else None
                   | None \<Rightarrow> None),
          card_variant = field_of second (find_first_regex E text
             [variant_pat [''Platinum'', ''Gold'', ''Green'', ''Centurion'', ''Blue'',
                           ''Everyday'', ''Cashback'', ''Corporate''],
              issuer_card_pat ''American Express'']),
          statement_period = map_option (normalize_spaces E) (field_of second (find_first_regex E text
             [period_pat ''Statement Period'',
              seqs [Lit (py ''Statement Summary''), star (Category Space), Lit (py ''Period''),
                    star colon_space, Group 1 (plus period_chars)],
              period_pat ''For the period''])),
          due_date = (case field_of second (find_first_regex E text
                             [date_pat ''Due Date'', date_pat ''Payment Due Date'']) of
                        None \<Rightarrow> None | Some d \<Rightarrow> try_parse_date P d),
          amount_due = field_of second (find_first_regex E text
             [amount_pat ''Amount Due'', amount_pat ''Total Amount Due'',
              amount_pat ''New Balance''])\<rparr>"
  unfolding parse_amex_def Let_def
  by (rule fill_eq) (simp_all del: One_nat_def add: always_sets_shapes always_sets_summary)

lemma parse_generic_eq:
  "parse_generic E P text =
     Inr \<lparr>issuer = py ''Unknown'',
          last4 = field_of second (find_first_regex E text
             [ending_in_lazy [], masked_number ''Account Number'',
              seqs [Lit (py ''Card''), plus (Category Space), Lit (py ''ending''),
                    star_lazy colon_space, four_digits]]),
          card_variant = field_of second (find_first_regex E text
             [generic_variant_first,
              seqs [Lit (py ''Card Type''), star colon_space, Group 1 (plus letters_digits_space)]]),
          statement_period = map_option (normalize_spaces E) (field_of second (find_first_regex E text
             [generic_period_first, period_pat ''For the period''])),
          due_date = (case field_of second (find_first_regex E text [generic_date]) of
                        None \<Rightarrow> None | Some d \<Rightarrow> try_parse_date P d),
          amount_due = field_of second (find_first_regex E text [generic_amount])\<rparr>"
proof -
  have a: "list_all (always_sets 1) [ending_in_lazy [], masked_number ''Account Number'',
              seqs [Lit (py ''Card''), plus (Category Space), Lit (py ''ending''),
                    star_lazy colon_space, four_digits]]"
    by (simp del: One_nat_def add: always_sets_last4 four_digits_def)
  from find_first_regex_Inr[OF a] obtain l4 where l4: "find_first_regex E text
             [ending_in_lazy [], masked_number ''Account Number'',
              seqs [Lit (py ''Card''), plus (Category Space), Lit (py ''ending''),
                    star_lazy colon_space, four_digits]] = Inr l4"
    by (rule exE)
  show ?thesis
    unfolding parse_generic_def l4 sum.case field_of_def[of second "Inr l4"]
    by (rule fill_eq) (simp_all del: One_nat_def add: always_sets_shapes always_sets_summary)
qed

lemma issuer_name_neq:
  "py ''Unknown'' \<noteq> py ''American Express''" "py ''Unknown'' \<noteq> py ''Chase''"
  "py ''Unknown'' \<noteq> py ''Citi''" "py ''Unknown'' \<noteq> py ''Bank of America''"
  "py ''Unknown'' \<noteq> py ''HSBC''"
  by (simp_all add: py_def)


lemma parse_text_generic:
  assumes "normalize_spaces E text = t" and "detect_issuer E t = py ''Unknown''"
    and "parse_generic E P t = Inr r"
  shows "parse_text E P text =
     Inr \<lparr>st_issuer = issuer r, st_last4 = last4 r, st_card_variant = card_variant r,
          st_statement_period = statement_period r, st_due_date = due_date r,
          st_amount_due = amount_due r, raw_sample_snippet = take 1200 t\<rparr>"
  using assms by (simp add: parse_text_def Let_def issuer_name_neq)


section \<open>Runs of the extractors on concrete texts\<close>

lemmas run_defs = eval_defs search_from_step

lemma member_since_first:
  "search E IC amex_last4_first (py ''Card Member since 2019 Card ending in 1234'') =
     Some \<lparr>mre = amex_last4_first, mstart = 0,
           mtext = py ''Card Member since 2019 Card ending in 1234'', mgroup = (\<lambda>n. None)\<rparr>"
  by (simp add: run_defs del: search_from.simps(2))

lemma member_since_variant:
  "find_first_regex E (py ''Card Member since 2019 Card ending in 1234'')
     [variant_pat [''Platinum'', ''Gold'', ''Green'', ''Centurion'', ''Blue'',
                   ''Everyday'', ''Cashback'', ''Corporate''],
      issuer_card_pat ''American Express''] = Inr None"
  by (simp add: run_defs del: search_from.simps(2))

lemma member_since_period:
  "find_first_regex E (py ''Card Member since 2019 Card ending in 1234'')
     [period_pat ''Statement Period'',
      seqs [Lit (py ''Statement Summary''), star (Category Space), Lit (py ''Period''),
            star colon_space, Group 1 (plus period_chars)],
      period_pat ''For the period''] = Inr None"
  by (simp add: run_defs del: search_from.simps(2))

lemma member_since_date:
  "find_first_regex E (py ''Card Member since 2019 Card ending in 1234'')
     [date_pat ''Due Date'', date_pat ''Payment Due Date''] = Inr None"
  by (simp add: run_defs del: search_from.simps(2))

lemma member_since_amount:
  "find_first_regex E (py ''Card Member since 2019 Card ending in 1234'')
     [amount_pat ''Amount Due'', amount_pat ''Total Amount Due'', amount_pat ''New Balance'']
   = Inr None"
  by (simp add: run_defs del: search_from.simps(2))

text \<open>
  C3, at a failing input. In the text below an "ending in" phrase followed by four
  digits occurs, and the American Express extractor returns no \<open>last4\<close>: the first
  search matches its alternative \<open>Card Member since.*\<close>, which has no digits to
  capture, and the second search is then never made.
\<close>

theorem amex_member_since_hides_last4:
  "parse_amex E P (py ''Card Member since 2019 Card ending in 1234'') =
     Inr \<lparr>issuer = py ''American Express'', last4 = None, card_variant = None,
          statement_period = None, due_date = None, amount_due = None\<rparr>"
  unfolding parse_amex_eq member_since_first member_since_variant member_since_period
    member_since_date member_since_amount
  by (simp add: field_of_def second_def amex_last4_first_def four_digits_def)


lemma scenario_c_normal:
  "normalize_spaces E (py ''Card Type: Rewards Due Date: 2024-07-01 Amount Due: 100.00'')
     = py ''Card Type: Rewards Due Date: 2024-07-01 Amount Due: 100.00''"
  by (simp add: normalize_spaces_def eval_defs)

lemma scenario_c_issuer:
  "detect_issuer E (py ''Card Type: Rewards Due Date: 2024-07-01 Amount Due: 100.00'')
     = py ''Unknown''"
  by (simp add: detect_issuer_def lower_def Let_def contains_step eval_defs del: contains.simps(2))

lemma scenario_c_last4:
  "find_first_regex E (py ''Card Type: Rewards Due Date: 2024-07-01 Amount Due: 100.00'')
     [ending_in_lazy [], masked_number ''Account Number'',
      seqs [Lit (py ''Card''), plus (Category Space), Lit (py ''ending''),
            star_lazy colon_space, four_digits]] = Inr None"
  by (simp add: run_defs del: search_from.simps(2))

lemma scenario_c_variant:
  "field_of second (find_first_regex E (py ''Card Type: Rewards Due Date: 2024-07-01 Amount Due: 100.00'')
     [generic_variant_first,
      seqs [Lit (py ''Card Type''), star colon_space, Group 1 (plus letters_digits_space)]])
   = Some (py ''Rewards Due Date'')"
  by (simp add: run_defs field_of_def second_def del: search_from.simps(2))

lemma scenario_c_period:
  "find_first_regex E (py ''Card Type: Rewards Due Date: 2024-07-01 Amount Due: 100.00'')
     [generic_period_first, period_pat ''For the period''] = Inr None"
  by (simp add: run_defs del: search_from.simps(2))

lemma scenario_c_date:
  "field_of second (find_first_regex E (py ''Card Type: Rewards Due Date: 2024-07-01 Amount Due: 100.00'')
     [generic_date]) = Some (py ''Due Date'')"
  by (simp add: run_defs field_of_def second_def del: search_from.simps(2))

lemma scenario_c_amount:
  "field_of second (find_first_regex E (py ''Card Type: Rewards Due Date: 2024-07-01 Amount Due: 100.00'')
     [generic_amount]) = Some (py ''Amount Due'')"
  by (simp add: run_defs field_of_def second_def del: search_from.simps(2))

text \<open>
  C1, at a failing input. The text contains no issuer keyword and the three phrases of
  the scenario. The generic extractor runs, and its patterns for the due date and
  the amount put the label in group 1: \<open>amount_due\<close> is the label \<open>Amount Due\<close>, not
  \<open>100.00\<close>, and \<open>due_date\<close> is what the date parser makes of the label \<open>Due Date\<close>, not
  of \<open>2024-07-01\<close>.
\<close>

theorem generic_captures_labels:
  "parse_text E P (py ''Card Type: Rewards Due Date: 2024-07-01 Amount Due: 100.00'') =
     Inr \<lparr>st_issuer = py ''Unknown'', st_last4 = None,
          st_card_variant = Some (py ''Rewards Due Date''), st_statement_period = None,
          st_due_date = try_parse_date P (py ''Due Date''),
          st_amount_due = Some (py ''Amount Due''),
          raw_sample_snippet = py ''Card Type: Rewards Due Date: 2024-07-01 Amount Due: 100.00''\<rparr>"
proof -
  let ?t = "py ''Card Type: Rewards Due Date: 2024-07-01 Amount Due: 100.00''"
  have r: "parse_generic E P ?t =
     Inr \<lparr>issuer = py ''Unknown'', last4 = None, card_variant = Some (py ''Rewards Due Date''),
          statement_period = None, due_date = try_parse_date P (py ''Due Date''),
          amount_due = Some (py ''Amount Due'')\<rparr>"
    unfolding parse_generic_eq scenario_c_last4 scenario_c_variant scenario_c_period
      scenario_c_date scenario_c_amount
    by (simp add: field_of_def second_def)
  have "length ?t \<le> 1200" by (simp add: py_def)
  then have "take 1200 ?t = ?t" by simp
  with parse_text_generic[OF scenario_c_normal scenario_c_issuer r] show ?thesis by simp
qed

















end
